theory Spec2Isabelle
  imports Main "HOL-Library.Code_Target_Nat"
begin

section \<open>JavaScript strings and numbers\<close>

text \<open>
  A JavaScript string is a sequence of UTF-16 code units; a code unit is modelled by its
  number. Literals are written with \<open>js\<close>, which maps each character of an Isabelle
  string to its code. The numbers that occur (page numbers, page counts) are integers;
  they are modelled by \<open>int\<close>, which agrees with the IEEE doubles of JavaScript on every
  integer of magnitude up to \<open>2 ^ 53\<close>. \<open>NaN\<close> is \<open>None\<close>.
\<close>

type_synonym jsstring = "nat list"

definition js :: "string \<Rightarrow> jsstring" where
  "js s = map of_char s"

definition COMMA :: nat where "COMMA = 44"
definition HYPHEN :: nat where "HYPHEN = 45"
definition PLUS :: nat where "PLUS = 43"
definition DOT :: nat where "DOT = 46"
definition LF :: nat where "LF = 10"

text \<open>
  The WhiteSpace and LineTerminator code points of ECMAScript, which \<open>trim\<close> and
  \<open>parseInt\<close> strip: TAB, LF, VT, FF, CR, SP, NBSP, U+1680, U+2000..U+200A, U+2028,
  U+2029, U+202F, U+205F, U+3000 and U+FEFF.
\<close>

definition isWhiteSpace :: "nat \<Rightarrow> bool" where
  "isWhiteSpace c \<longleftrightarrow>
     (9 \<le> c \<and> c \<le> 13) \<or> c = 32 \<or> c = 160 \<or> c = 5760 \<or> (8192 \<le> c \<and> c \<le> 8202) \<or>
     c = 8232 \<or> c = 8233 \<or> c = 8239 \<or> c = 8287 \<or> c = 12288 \<or> c = 65279"

text \<open>\<open>String.prototype.trim\<close>: white space is removed from both ends.\<close>

definition trim :: "jsstring \<Rightarrow> jsstring" where
  "trim s = rev (dropWhile isWhiteSpace (rev (dropWhile isWhiteSpace s)))"

text \<open>
  \<open>String.prototype.split\<close> with a separator of one code unit: the fields between the
  separators, in order; a string without separator (the empty one too) is one field.
  \<open>cur\<close> is the field being read.
\<close>

fun splitLoop :: "nat \<Rightarrow> jsstring \<Rightarrow> jsstring \<Rightarrow> jsstring list" where
  "splitLoop sep cur [] = [cur]"
| "splitLoop sep cur (c # cs) =
     (if c = sep then cur # splitLoop sep [] cs else splitLoop sep (cur @ [c]) cs)"

definition split :: "nat \<Rightarrow> jsstring \<Rightarrow> jsstring list" where
  "split sep s = splitLoop sep [] s"

text \<open>
  The value of a code unit as a digit: \<open>0..9\<close>, then \<open>a..z\<close> and \<open>A..Z\<close> for ten
  and above.
\<close>

definition digitValue :: "nat \<Rightarrow> nat option" where
  "digitValue c =
     (if 48 \<le> c \<and> c \<le> 57 then Some (c - 48)
      else if 97 \<le> c \<and> c \<le> 122 then Some (c - 87)
      else if 65 \<le> c \<and> c \<le> 90 then Some (c - 55)
      else None)"

definition isRadixDigit :: "nat \<Rightarrow> nat \<Rightarrow> bool" where
  "isRadixDigit R c = (case digitValue c of None \<Rightarrow> False | Some d \<Rightarrow> d < R)"

definition radixValue :: "nat \<Rightarrow> jsstring \<Rightarrow> nat" where
  "radixValue R Z = foldl (\<lambda>acc c. acc * R + the (digitValue c)) 0 Z"

text \<open>
  \<open>parseInt(string)\<close> with no radix argument: leading white space is skipped, one sign
  is read, a prefix \<open>0x\<close> or \<open>0X\<close> selects radix 16 (radix 10 otherwise), and the
  longest run of digits of that radix is the value; with no digit the result is
  \<open>NaN\<close>. What follows the digits is ignored.
\<close>

definition parseInt :: "jsstring \<Rightarrow> int option" where
  "parseInt string =
     (let S = dropWhile isWhiteSpace string;
          sign = (if S \<noteq> [] \<and> hd S = HYPHEN then - 1 else 1 :: int);
          S = (if S \<noteq> [] \<and> (hd S = PLUS \<or> hd S = HYPHEN) then tl S else S);
          hex = (2 \<le> length S \<and> (take 2 S = [48, 120] \<or> take 2 S = [48, 88]));
          R = (if hex then 16 else 10);
          S = (if hex then drop 2 S else S);
          Z = takeWhile (isRadixDigit R) S
      in if Z = [] then None else Some (sign * int (radixValue R Z)))"

section \<open>The page-range parser\<close>

text \<open>
  \<open>for (let i = start; i <= end; i++) pages.push(i)\<close>: the pages from \<open>i\<close> to
  \<open>end\<close> are appended to \<open>pages\<close>.
\<close>

function pushRange :: "int \<Rightarrow> int \<Rightarrow> int list \<Rightarrow> int list" where
  "pushRange i end pages = (if i \<le> end then pushRange (i + 1) end (pages @ [i]) else pages)"
  by pat_completeness auto
termination
  by (relation "measure (\<lambda>(i, end, pages). nat (end + 1 - i))") auto

declare pushRange.simps [simp del]

text \<open>
  The body of the loop over the tokens, for one token (the source's \<open>range\<close>, already
  trimmed): a token with a hyphen is split at the hyphens, each field trimmed and parsed,
  and the first two fields are \<open>start\<close> and \<open>end\<close> (\<open>endpoints\<close>); a field that is
  missing is \<open>undefined\<close>, which \<open>isNaN\<close> takes for \<open>NaN\<close>.
\<close>

definition nth_field :: "int option list \<Rightarrow> nat \<Rightarrow> int option" where
  "nth_field fs k = (if k < length fs then fs ! k else None)"

definition endpoints :: "jsstring \<Rightarrow> int option \<times> int option" where
  "endpoints token =
     (let fs = map (\<lambda>n. parseInt (trim n)) (split HYPHEN token)
      in (nth_field fs 0, nth_field fs 1))"

definition parseToken :: "int \<Rightarrow> jsstring \<Rightarrow> int list \<Rightarrow> int list" where
  "parseToken totalPages token pages =
     (if HYPHEN \<in> set token then
        (case endpoints token of
           (Some start, Some end) \<Rightarrow>
             if start > 0 \<and> end \<le> totalPages \<and> start \<le> end
             then pushRange start end pages else pages
         | _ \<Rightarrow> pages)
      else
        (case parseInt token of
           Some page \<Rightarrow> if page > 0 \<and> page \<le> totalPages then pages @ [page] else pages
         | None \<Rightarrow> pages))"

text \<open>
  \<open>[...new Set(pages)]\<close>: the elements in the order of their first occurrence.
\<close>

fun uniq :: "int list \<Rightarrow> int list \<Rightarrow> int list" where
  "uniq seen [] = seen"
| "uniq seen (p # ps) = (if p \<in> set seen then uniq seen ps else uniq (seen @ [p]) ps)"

text \<open>
  \<open>parsePageRanges\<close>; \<open>totalPages\<close> is the component's state that the function reads.
  The numeric \<open>sort((a, b) => a - b)\<close> is the library's \<open>sort\<close>.
\<close>

definition parsePageRanges :: "int \<Rightarrow> jsstring \<Rightarrow> int list" where
  "parsePageRanges totalPages rangeStr =
     (let ranges = map trim (split COMMA rangeStr);
          pages = foldl (\<lambda>pages token. parseToken totalPages token pages) [] ranges
      in sort (uniq [] pages))"

section \<open>Grouping the selected pages into ranges\<close>

text \<open>
  The callback of \<open>sortedPages.forEach\<close> in \<open>createSplitDocuments\<close>, run over the pages
  that are left. \<open>prev\<close> is \<open>sortedPages[index - 1]\<close>, and \<open>None\<close> when \<open>index\<close> is 0;
  the state is \<open>ranges\<close> and \<open>currentRange\<close>. A page outside the document is skipped,
  and is still the \<open>prev\<close> of the next one.
\<close>

fun groupLoop ::
  "int \<Rightarrow> int option \<Rightarrow> int list \<Rightarrow> int list list \<times> int list \<Rightarrow> int list list \<times> int list" where
  "groupLoop totalPages prev [] (ranges, currentRange) = (ranges, currentRange)"
| "groupLoop totalPages prev (page # rest) (ranges, currentRange) =
     (let pageIndex = page - 1 in
      if pageIndex < 0 \<or> pageIndex \<ge> totalPages then
        groupLoop totalPages (Some page) rest (ranges, currentRange)
      else if (case prev of None \<Rightarrow> True | Some q \<Rightarrow> page \<noteq> q + 1) then
        groupLoop totalPages (Some page) rest
          (if length currentRange > 0 then ranges @ [currentRange] else ranges, [page])
      else
        groupLoop totalPages (Some page) rest (ranges, currentRange @ [page]))"

text \<open>
  The ranges of \<open>createSplitDocuments\<close>: the page numbers are sorted (and not
  deduplicated), grouped by the loop, and the last range is added.
\<close>

definition groupPages :: "int \<Rightarrow> int list \<Rightarrow> int list list" where
  "groupPages totalPages pageNumbers =
     (let sortedPages = sort pageNumbers;
          (ranges, currentRange) = groupLoop totalPages None sortedPages ([], [])
      in if length currentRange > 0 then ranges @ [currentRange] else ranges)"

text \<open>
  A range as the pair of its first and last page, \<open>range[0]\<close> and
  \<open>range[range.length - 1]\<close>, the way the naming code reads it; \<open>compact\<close> is the
  grouping seen through these pairs, and \<open>flatten\<close> writes the pairs out again.
\<close>

definition bounds :: "int list \<Rightarrow> int \<times> int" where
  "bounds r = (r ! 0, r ! (length r - 1))"

definition compact :: "int \<Rightarrow> int list \<Rightarrow> (int \<times> int) list" where
  "compact totalPages selection = map bounds (groupPages totalPages selection)"

definition flatten :: "(int \<times> int) list \<Rightarrow> int list" where
  "flatten rs = concat (map (\<lambda>(start, end). [start..end]) rs)"

text \<open>
  Two ranges that follow each other can be merged when the second starts right after the
  first ends; \<open>mergeable_free\<close> says that this happens nowhere.
\<close>

fun mergeable_free :: "(int \<times> int) list \<Rightarrow> bool" where
  "mergeable_free [] = True"
| "mergeable_free [r] = True"
| "mergeable_free ((a, b) # (c, d) # rs) = (c \<noteq> b + 1 \<and> mergeable_free ((c, d) # rs))"

section \<open>Output names\<close>

text \<open>
  \<open>Number.prototype.toString\<close> of an integer: its decimal digits, after a minus sign
  when it is negative (below \<open>10 ^ 21\<close>, where JavaScript changes to exponents).
\<close>

fun digits :: "nat \<Rightarrow> jsstring" where
  "digits n = (if n < 10 then [48 + n] else digits (n div 10) @ [48 + n mod 10])"

declare digits.simps [simp del]

definition toString :: "int \<Rightarrow> jsstring" where
  "toString n = (if n < 0 then HYPHEN # digits (nat (- n)) else digits (nat n))"

text \<open>
  \<open>s.replace(pat, rep)\<close> with strings: the first occurrence of \<open>pat\<close> in \<open>s\<close> is
  replaced, and \<open>s\<close> is unchanged when there is none. (The replacements built here are
  digits and hyphens, with none of the \<open>$\<close> patterns.)
\<close>

fun replace :: "jsstring \<Rightarrow> jsstring \<Rightarrow> jsstring \<Rightarrow> jsstring" where
  "replace pat rep [] = (if pat = [] then rep else [])"
| "replace pat rep (c # cs) =
     (if take (length pat) (c # cs) = pat then rep @ drop (length pat) (c # cs)
      else c # replace pat rep cs)"

text \<open>The name of the document of one range, before the suffix \<open>.pdf\<close>.\<close>

definition fileName :: "jsstring \<Rightarrow> int list \<Rightarrow> jsstring" where
  "fileName namingPattern r =
     (if length r = 1 then replace (js ''{n}'') (toString (r ! 0)) namingPattern
      else replace (js ''{n}'')
             (toString (r ! 0) @ [HYPHEN] @ toString (r ! (length r - 1))) namingPattern)"

section \<open>Files, blobs and the PDF library\<close>

text \<open>
  A \<open>File\<close> is its name, its MIME type and its bytes (what \<open>arrayBuffer()\<close> gives); a
  \<open>Blob\<close> is made from one part, bytes or text, and a type. A thrown \<open>Error\<close> is a value,
  with its message.
\<close>

type_synonym bytes = "nat list"

record jsfile =
  file_name :: jsstring
  file_type :: jsstring
  file_content :: bytes

datatype blobPart = Bytes bytes | Text jsstring

record blob =
  blob_part :: blobPart
  blob_type :: jsstring

record outputFile =
  out_name :: jsstring
  out_content :: blob

datatype js_error = Error jsstring

definition bind :: "js_error + 'a \<Rightarrow> ('a \<Rightarrow> js_error + 'b) \<Rightarrow> js_error + 'b" where
  "bind m f = (case m of Inl e \<Rightarrow> Inl e | Inr x \<Rightarrow> f x)"

text \<open>
  The option objects that the compression passes to \<open>save\<close> are not looked at by the
  code; each is identified by the attempt that builds it and by the compression level it
  is built from.
\<close>

datatype saveOptions =
  CompressOptions jsstring
| StreamCompressionOptions jsstring
| MaxCompressionOptions jsstring
| FinalOptions jsstring

text \<open>
  What the code calls outside itself is a parameter: the library \<open>pdf-lib\<close>, the
  decoding of a text file and the canvas. Each call of the library can throw.
  \<^item> \<open>load\<close> is \<open>PDFDocument.load(bytes)\<close>, and \<open>loadLenient\<close> the same with the options
    of the compression (\<open>ignoreEncryption\<close>, \<open>throwOnInvalidObject: false\<close>);
  \<^item> \<open>getPageCount\<close> is the number of pages of a loaded document;
  \<^item> \<open>copyPages doc indices\<close> is \<open>PDFDocument.create()\<close> followed by
    \<open>newPdf.copyPages(doc, indices)\<close>;
  \<^item> \<open>savePages pages options\<close> adds the copied pages to the new document and saves it;
  \<^item> \<open>saveDoc doc options\<close> is \<open>doc.save(options)\<close> on the loaded document;
  \<^item> \<open>decodeText\<close> is \<open>File.text()\<close>; \<open>canvasToBlob bytes type level\<close> is the image
    drawn on a canvas and written back, \<open>None\<close> when any step of it fails.
\<close>

record ('doc, 'page) pdflib =
  load :: "bytes \<Rightarrow> js_error + 'doc"
  loadLenient :: "bytes \<Rightarrow> js_error + 'doc"
  getPageCount :: "'doc \<Rightarrow> int"
  copyPages :: "'doc \<Rightarrow> int list \<Rightarrow> js_error + 'page list"
  savePages :: "'page list \<Rightarrow> saveOptions option \<Rightarrow> js_error + bytes"
  saveDoc :: "'doc \<Rightarrow> saveOptions \<Rightarrow> js_error + bytes"
  decodeText :: "bytes \<Rightarrow> jsstring"
  canvasToBlob :: "bytes \<Rightarrow> jsstring \<Rightarrow> jsstring \<Rightarrow> blob option"

text \<open>
  \<open>name.split('.').pop()?.toLowerCase()\<close>. The letters \<open>A\<close> to \<open>Z\<close> are mapped to
  lower case; the case mapping of Unicode outside ASCII is not modelled (no such
  character maps to a letter of \<open>pdf\<close>, \<open>txt\<close>, \<open>jpg\<close>, \<open>jpeg\<close> or \<open>png\<close>).
\<close>

definition toLowerCase :: "jsstring \<Rightarrow> jsstring" where
  "toLowerCase s = map (\<lambda>c. if 65 \<le> c \<and> c \<le> 90 then c + 32 else c) s"

definition fileExtension :: "jsstring \<Rightarrow> jsstring" where
  "fileExtension nm = toLowerCase (last (split DOT nm))"

section \<open>Splitting a document\<close>

text \<open>
  The callback of \<open>ranges.map\<close>: the pages of the range are copied into a new document,
  which is saved and named after the range.
\<close>

definition splitRange ::
  "('doc, 'page) pdflib \<Rightarrow> 'doc \<Rightarrow> jsstring \<Rightarrow> int list \<Rightarrow> js_error + outputFile" where
  "splitRange lib pdfDoc namingPattern r =
     (let pageIndices = map (\<lambda>p. p - 1) r in
      bind (copyPages lib pdfDoc pageIndices) (\<lambda>copiedPages.
      bind (savePages lib copiedPages None) (\<lambda>newPdfBytes.
        let fullFileName = fileName namingPattern r @ js ''.pdf''
        in Inr \<lparr>out_name = fullFileName,
                out_content = \<lparr>blob_part = Bytes newPdfBytes,
                               blob_type = js ''application/pdf''\<rparr>\<rparr>)))"

text \<open>
  \<open>Promise.all\<close>: the results in the order of the promises, or a rejection when one of
  them rejects (here the first one in the list).
\<close>

fun promiseAll :: "(js_error + 'a) list \<Rightarrow> js_error + 'a list" where
  "promiseAll [] = Inr []"
| "promiseAll (p # ps) = bind p (\<lambda>x. bind (promiseAll ps) (\<lambda>xs. Inr (x # xs)))"

text \<open>
  The branch of \<open>createSplitDocuments\<close> for PDF files; what is thrown inside is caught and
  thrown again with a longer message.
\<close>

definition splitPdf ::
  "('doc, 'page) pdflib \<Rightarrow> bytes \<Rightarrow> int list \<Rightarrow> jsstring \<Rightarrow> js_error + outputFile list" where
  "splitPdf lib originalContent pageNumbers namingPattern =
     (case bind (load lib originalContent) (\<lambda>pdfDoc.
             let totalPages = getPageCount lib pdfDoc;
                 ranges = groupPages totalPages pageNumbers
             in promiseAll (map (splitRange lib pdfDoc namingPattern) ranges))
      of Inl (Error message) \<Rightarrow> Inl (Error (js ''Failed to split PDF file: '' @ message))
       | Inr splitFiles \<Rightarrow> Inr splitFiles)"

text \<open>
  The two other branches give one output per page number: a text file is cut into
  groups of lines, any other file into chunks of bytes. \<open>Math.ceil(a / b)\<close> is
  \<open>ceilDiv\<close>, \<open>slice\<close> is the method of arrays and buffers for bounds within the length,
  and \<open>join\<close> puts the separator between the lines.
\<close>

definition ceilDiv :: "nat \<Rightarrow> nat \<Rightarrow> nat" where
  "ceilDiv a b = (a + b - 1) div b"

definition slice :: "nat \<Rightarrow> nat \<Rightarrow> 'a list \<Rightarrow> 'a list" where
  "slice start end xs = take (end - start) (drop start xs)"

fun join :: "nat \<Rightarrow> jsstring list \<Rightarrow> jsstring" where
  "join sep [] = []"
| "join sep [l] = l"
| "join sep (l # ls) = l @ [sep] @ join sep ls"

definition splitText ::
  "jsstring \<Rightarrow> jsstring \<Rightarrow> jsstring \<Rightarrow> int list \<Rightarrow> jsstring \<Rightarrow> outputFile list" where
  "splitText content originalExtension fileType pageNumbers namingPattern =
     (let lines = split LF content;
          linesPerPage = ceilDiv (length lines) (length pageNumbers)
      in map (\<lambda>(pageNum, index).
           let startLine = index * linesPerPage;
               endLine = min (startLine + linesPerPage) (length lines);
               pageContent = join LF (slice startLine endLine lines);
               fullFileName =
                 replace (js ''{n}'') (toString pageNum) namingPattern @ [DOT] @ originalExtension
           in \<lparr>out_name = fullFileName,
                out_content = \<lparr>blob_part = Text pageContent, blob_type = fileType\<rparr>\<rparr>)
         (zip pageNumbers [0..<length pageNumbers]))"

definition splitBinary ::
  "bytes \<Rightarrow> jsstring \<Rightarrow> jsstring \<Rightarrow> int list \<Rightarrow> jsstring \<Rightarrow> outputFile list" where
  "splitBinary originalContent originalExtension fileType pageNumbers namingPattern =
     (let byteLength = length originalContent;
          chunkSize = ceilDiv byteLength (length pageNumbers)
      in map (\<lambda>(pageNum, index).
           let startOffset = index * chunkSize;
               endOffset = min (startOffset + chunkSize) byteLength;
               actualEndOffset = (if endOffset > startOffset then endOffset else byteLength);
               chunkContent = slice startOffset actualEndOffset originalContent;
               fullFileName =
                 replace (js ''{n}'') (toString pageNum) namingPattern @ [DOT] @ originalExtension
           in \<lparr>out_name = fullFileName,
                out_content = \<lparr>blob_part = Bytes chunkContent, blob_type = fileType\<rparr>\<rparr>)
         (zip pageNumbers [0..<length pageNumbers]))"

text \<open>\<open>createSplitDocuments\<close>: the branch is chosen by the type and the extension of the file.\<close>

definition createSplitDocuments ::
  "('doc, 'page) pdflib \<Rightarrow> jsfile \<Rightarrow> int list \<Rightarrow> jsstring \<Rightarrow> js_error + outputFile list" where
  "createSplitDocuments lib originalFile pageNumbers namingPattern =
     (let originalExtension =
            (if fileExtension (file_name originalFile) = [] then js ''pdf''
             else fileExtension (file_name originalFile));
          originalContent = file_content originalFile
      in if take 5 (file_type originalFile) = js ''text/'' \<or> originalExtension = js ''txt'' then
           Inr (splitText (decodeText lib originalContent) originalExtension
                  (file_type originalFile) pageNumbers namingPattern)
         else if originalExtension = js ''pdf'' then
           splitPdf lib originalContent pageNumbers namingPattern
         else
           Inr (splitBinary originalContent originalExtension
                  (file_type originalFile) pageNumbers namingPattern))"

section \<open>Compressing a document\<close>

text \<open>
  The second, third and last attempts build a new document from copies of the pages,
  one \<open>copyPages\<close> for each page index, and save it with the options of the attempt.
  The copied page is the first element of what \<open>copyPages\<close> returns; with no element it
  is \<open>undefined\<close>, and adding it to the document throws.
\<close>

fun copyEach :: "('doc, 'page) pdflib \<Rightarrow> 'doc \<Rightarrow> int list \<Rightarrow> js_error + 'page list" where
  "copyEach lib pdfDoc [] = Inr []"
| "copyEach lib pdfDoc (i # is) =
     bind (copyPages lib pdfDoc [i]) (\<lambda>copied.
       case copied of
         [] \<Rightarrow> Inl (Error (js ''undefined page''))
       | copiedPage # _ \<Rightarrow> bind (copyEach lib pdfDoc is) (\<lambda>rest. Inr (copiedPage # rest)))"

definition recompress ::
  "('doc, 'page) pdflib \<Rightarrow> 'doc \<Rightarrow> saveOptions \<Rightarrow> js_error + bytes" where
  "recompress lib pdfDoc options =
     bind (copyEach lib pdfDoc [0..getPageCount lib pdfDoc - 1]) (\<lambda>pages.
       savePages lib pages (Some options))"

text \<open>The four attempts at a smaller file, in the order in which they are tried.\<close>

definition attempts ::
  "('doc, 'page) pdflib \<Rightarrow> 'doc \<Rightarrow> jsstring \<Rightarrow> (js_error + bytes) list" where
  "attempts lib pdfDoc level =
     [saveDoc lib pdfDoc (CompressOptions level),
      recompress lib pdfDoc (StreamCompressionOptions level),
      recompress lib pdfDoc (MaxCompressionOptions level),
      recompress lib pdfDoc (FinalOptions level)]"

text \<open>
  The body of the \<open>try\<close> for a PDF file: an attempt is made only when the bytes so far
  are not fewer than the original ones, and the original is returned when the last bytes
  are not fewer either.
\<close>

definition compressPdf ::
  "('doc, 'page) pdflib \<Rightarrow> bytes \<Rightarrow> jsstring \<Rightarrow> jsstring \<Rightarrow> js_error + blob" where
  "compressPdf lib arrayBuffer fileType level =
     bind (loadLenient lib arrayBuffer) (\<lambda>pdfDoc.
     bind (attempts lib pdfDoc level ! 0) (\<lambda>b1.
     bind (if length b1 \<ge> length arrayBuffer then attempts lib pdfDoc level ! 1 else Inr b1) (\<lambda>b2.
     bind (if length b2 \<ge> length arrayBuffer then attempts lib pdfDoc level ! 2 else Inr b2) (\<lambda>b3.
     bind (if length b3 \<ge> length arrayBuffer then attempts lib pdfDoc level ! 3 else Inr b3)
       (\<lambda>compressedPdfBytes.
         if length compressedPdfBytes \<ge> length arrayBuffer
         then Inr \<lparr>blob_part = Bytes arrayBuffer, blob_type = fileType\<rparr>
         else Inr \<lparr>blob_part = Bytes compressedPdfBytes,
                   blob_type = js ''application/pdf''\<rparr>)))))"

text \<open>
  \<open>createProcessedDocument\<close>; the level is optional, and a missing or empty level is
  falsy. What the \<open>try\<close> throws is caught, and the original file is returned.
\<close>

definition createProcessedDocument ::
  "('doc, 'page) pdflib \<Rightarrow> jsfile \<Rightarrow> jsstring option \<Rightarrow> blob" where
  "createProcessedDocument lib originalFile compressionLevel =
     (let arrayBuffer = file_content originalFile;
          fileType = file_type originalFile;
          ext = fileExtension (file_name originalFile);
          original = \<lparr>blob_part = Bytes arrayBuffer, blob_type = fileType\<rparr>
      in case compressionLevel of
           None \<Rightarrow> original
         | Some level \<Rightarrow>
             if level = [] then original
             else if ext = js ''pdf'' then
               (case compressPdf lib arrayBuffer fileType level of
                  Inl error \<Rightarrow> original
                | Inr result \<Rightarrow> result)
             else if ext \<in> {js ''jpg'', js ''jpeg'', js ''png''} then
               (case canvasToBlob lib arrayBuffer fileType level of
                  None \<Rightarrow> original
                | Some result \<Rightarrow> result)
             else original)"

section \<open>The token rules in the words of the specification\<close>

text \<open>
  The specification has two kinds of token: an integer literal, and two integer literals
  separated by a hyphen. An integer literal is read here as a run of decimal digits that
  is not empty, and its value is read in base ten; \<open>hexValue\<close> is the value of a run of
  hexadecimal digits.
\<close>

definition isDigit :: "nat \<Rightarrow> bool" where
  "isDigit c \<longleftrightarrow> 48 \<le> c \<and> c \<le> 57"

definition isHexDigit :: "nat \<Rightarrow> bool" where
  "isHexDigit c \<longleftrightarrow> isDigit c \<or> (97 \<le> c \<and> c \<le> 102) \<or> (65 \<le> c \<and> c \<le> 70)"

definition integerLiteral :: "jsstring \<Rightarrow> bool" where
  "integerLiteral s \<longleftrightarrow> s \<noteq> [] \<and> list_all isDigit s"

definition literalValue :: "jsstring \<Rightarrow> nat" where
  "literalValue s = foldl (\<lambda>v c. 10 * v + (c - 48)) 0 s"

definition hexValue :: "jsstring \<Rightarrow> nat" where
  "hexValue s =
     foldl (\<lambda>v c. 16 * v + (if isDigit c then c - 48 else if 97 \<le> c then c - 87 else c - 55)) 0 s"

definition spec_grammar :: "jsstring \<Rightarrow> bool" where
  "spec_grammar token \<longleftrightarrow>
     integerLiteral token \<or>
     (case split HYPHEN token of
        [a, b] \<Rightarrow> integerLiteral a \<and> integerLiteral b
      | _ \<Rightarrow> False)"

text \<open>
  The accept and drop rules of the specification for one trimmed token: a single integer
  is accepted when \<open>1 \<le> value \<le> totalPages\<close>, a range when \<open>start > 0\<close>,
  \<open>end \<le> totalPages\<close> and \<open>start \<le> end\<close>, and every other token is dropped.
\<close>

definition spec_token_pages :: "int \<Rightarrow> jsstring \<Rightarrow> int list" where
  "spec_token_pages totalPages token =
     (if integerLiteral token then
        (let v = int (literalValue token)
         in if 1 \<le> v \<and> v \<le> totalPages then [v] else [])
      else
        (case split HYPHEN token of
           [a, b] \<Rightarrow>
             (let start = int (literalValue a); end = int (literalValue b)
              in if integerLiteral a \<and> integerLiteral b
                    \<and> start > 0 \<and> end \<le> totalPages \<and> start \<le> end
                 then [start..end] else [])
         | _ \<Rightarrow> []))"

text \<open>
  The parser of the specification: the tokens are trimmed, the accepted pages are
  collected into one set, and the set is returned in ascending order.
\<close>

definition spec_parse :: "int \<Rightarrow> jsstring \<Rightarrow> int list" where
  "spec_parse totalPages rangeStr =
     sort (remdups (concat (map (\<lambda>t. spec_token_pages totalPages (trim t))
                              (split COMMA rangeStr))))"

text \<open>
  What \<open>parseInt\<close> does after the white space and the sign: the digits that follow, in
  base sixteen after \<open>0x\<close> or \<open>0X\<close> and in base ten otherwise, give the magnitude.
\<close>

definition magnitude :: "jsstring \<Rightarrow> nat option" where
  "magnitude S =
     (let hex = (2 \<le> length S \<and> (take 2 S = [48, 120] \<or> take 2 S = [48, 88]));
          R = (if hex then 16 else 10);
          Z = takeWhile (isRadixDigit R) (if hex then drop 2 S else S)
      in if Z = [] then None else Some (radixValue R Z))"

definition signOf :: "jsstring \<Rightarrow> int" where
  "signOf sg = (if sg = [HYPHEN] then - 1 else 1)"

section \<open>Notions used to state and prove the properties\<close>

text \<open>A run of consecutive integers: a list that is not empty and counts up by one.\<close>

definition consecutive :: "int list \<Rightarrow> bool" where
  "consecutive r \<longleftrightarrow> r \<noteq> [] \<and> r = [hd r..last r]"

text \<open>The number of places of a list where the next element is not the successor.\<close>

fun breaks :: "int list \<Rightarrow> nat" where
  "breaks [] = 0"
| "breaks [x] = 0"
| "breaks (x # y # zs) = (if y = x + 1 then 0 else 1) + breaks (y # zs)"

text \<open>The state of the grouping loop with the current range closed.\<close>

definition closed :: "int list list \<times> int list \<Rightarrow> int list list" where
  "closed st = (if length (snd st) > 0 then fst st @ [snd st] else fst st)"

text \<open>
  What the grouping loop keeps true while the pages lie in the document: the ranges made
  so far are runs, none starts right after the one before it, the last page of the
  current range is the page just read, and the current range is empty only at the start.
\<close>

definition group_inv :: "int option \<Rightarrow> int list list \<Rightarrow> int list \<Rightarrow> bool" where
  "group_inv prev ranges cur \<longleftrightarrow>
     (\<forall>r\<in>set (closed (ranges, cur)). consecutive r) \<and>
     mergeable_free (map bounds (closed (ranges, cur))) \<and>
     (cur \<noteq> [] \<longrightarrow> prev = Some (last cur)) \<and> (cur = [] \<longrightarrow> ranges = [])"

text \<open>
  A library for the examples: a document is the list of its pages, a page is one byte,
  loading and saving change nothing (so no attempt makes a file smaller), and
  \<open>copyPages\<close> throws for an index outside the document, as \<open>pdf-lib\<close> does.
\<close>

definition exampleLib :: "(bytes, nat) pdflib" where
  "exampleLib =
     \<lparr>load = Inr, loadLenient = Inr,
      getPageCount = (\<lambda>doc. int (length doc)),
      copyPages = (\<lambda>doc indices.
         if \<forall>i\<in>set indices. 0 \<le> i \<and> i < int (length doc)
         then Inr (map (\<lambda>i. doc ! nat i) indices)
         else Inl (Error (js ''index out of range''))),
      savePages = (\<lambda>pages options. Inr pages),
      saveDoc = (\<lambda>doc options. Inr doc),
      decodeText = (\<lambda>content. content),
      canvasToBlob = (\<lambda>content fileType level. None)\<rparr>"

text \<open>The ranges follow each other in ascending order: each ends before the next starts.\<close>

definition ascending_ranges :: "(int \<times> int) list \<Rightarrow> bool" where
  "ascending_ranges rs = sorted_wrt (\<lambda>r s. snd r < fst s) rs"

section \<open>Properties of the parser\<close>

subsection \<open>Splitting and trimming\<close>

lemma splitLoop_append:
  "splitLoop sep cur (a @ sep # b) = splitLoop sep cur a @ splitLoop sep [] b"
  by (induction a arbitrary: cur) auto

lemma split_append: "split sep (a @ sep # b) = split sep a @ split sep b"
  by (simp add: split_def splitLoop_append)

lemma splitLoop_fields:
  "f \<in> set (splitLoop sep cur s) \<Longrightarrow> set f \<subseteq> set cur \<union> (set s - {sep})"
proof (induction s arbitrary: cur)
  case Nil
  then show ?case by simp
next
  case (Cons c cs)
  show ?case
  proof (cases "c = sep")
    case True
    with Cons.prems have "f = cur \<or> f \<in> set (splitLoop sep [] cs)" by simp
    then show ?thesis using Cons.IH [of "[]"] by auto
  next
    case False
    with Cons.prems have "f \<in> set (splitLoop sep (cur @ [c]) cs)" by simp
    from Cons.IH [OF this] False show ?thesis by auto
  qed
qed

lemma split_fields: "f \<in> set (split sep s) \<Longrightarrow> set f \<subseteq> set s - {sep}"
  using splitLoop_fields [of f sep "[]" s] by (simp add: split_def)

lemma splitLoop_nosep: "sep \<notin> set s \<Longrightarrow> splitLoop sep cur s = [cur @ s]"
  by (induction s arbitrary: cur) auto

lemma split_nosep: "sep \<notin> set s \<Longrightarrow> split sep s = [s]"
  by (simp add: split_def splitLoop_nosep)

lemma split_two:
  assumes "split sep t = f0 # f1 # rest"
  shows "split sep (f0 @ sep # f1) = [f0, f1]" and "sep \<in> set t"
proof -
  have "f0 \<in> set (split sep t)" "f1 \<in> set (split sep t)" using assms by simp_all
  then have "sep \<notin> set f0" "sep \<notin> set f1" using split_fields by blast+
  then show "split sep (f0 @ sep # f1) = [f0, f1]" by (simp add: split_append split_nosep)
  show "sep \<in> set t"
  proof (rule ccontr)
    assume "sep \<notin> set t"
    then have "split sep t = [t]" by (rule split_nosep)
    with assms show False by simp
  qed
qed

lemma trim_blank:
  assumes "\<forall>c\<in>set s. isWhiteSpace c"
  shows "trim s = []"
proof -
  from assms have d: "dropWhile isWhiteSpace s = []" by (induction s) auto
  show ?thesis unfolding trim_def d by simp
qed

subsection \<open>What one token adds, and the whole result\<close>

lemma pushRange_upto: "pushRange i e pages = pages @ [i..e]"
proof (induction i e pages rule: pushRange.induct)
  case (1 i e pages)
  show ?case
  proof (cases "i \<le> e")
    case True
    then show ?thesis using 1 by (subst pushRange.simps) (simp add: upto_rec1)
  next
    case False
    then show ?thesis by (subst pushRange.simps) simp
  qed
qed

lemma parseToken_append: "parseToken tp t pages = pages @ parseToken tp t []"
  by (simp add: parseToken_def pushRange_upto split: option.splits prod.splits)

lemma parseToken_Nil: "parseToken tp [] pages = pages"
  by (simp add: parseToken_def parseInt_def)

lemma foldl_parseToken:
  "foldl (\<lambda>pages token. parseToken tp token pages) acc ts =
   acc @ concat (map (\<lambda>t. parseToken tp t []) ts)"
proof (induction ts arbitrary: acc)
  case Nil
  show ?case by simp
next
  case (Cons t ts)
  show ?case using Cons.IH [of "parseToken tp t acc"] parseToken_append [of tp t acc] by simp
qed

lemma set_uniq: "set (uniq seen ps) = set seen \<union> set ps"
  by (induction ps arbitrary: seen) auto

lemma distinct_uniq: "distinct seen \<Longrightarrow> distinct (uniq seen ps)"
  by (induction ps arbitrary: seen) auto

lemma set_parsePageRanges:
  "set (parsePageRanges tp s) = (\<Union>t\<in>set (map trim (split COMMA s)). set (parseToken tp t []))"
  by (simp add: parsePageRanges_def Let_def set_uniq foldl_parseToken)

lemma set_parseToken:
  "p \<in> set (parseToken tp t []) \<longleftrightarrow>
     (if HYPHEN \<in> set t
      then (case endpoints t of
              (Some start, Some end) \<Rightarrow>
                 0 < start \<and> end \<le> tp \<and> start \<le> end \<and> start \<le> p \<and> p \<le> end
            | _ \<Rightarrow> False)
      else parseInt t = Some p \<and> 1 \<le> p \<and> p \<le> tp)"
  by (auto simp: parseToken_def pushRange_upto split: option.splits prod.splits)

lemma strict_parsePageRanges: "sorted_wrt (<) (parsePageRanges tp s)"
  by (simp add: parsePageRanges_def Let_def strict_sorted_iff distinct_uniq)

text \<open>
  \<open>parseInt\<close> reads a prefix: a token "parses as an integer" as soon as it starts
  with a digit, whatever follows, and a prefix \<open>0x\<close> makes it hexadecimal.
\<close>

lemma parseInt_examples:
  "parseInt (js ''12'') = Some 12" "parseInt (js ''3abc'') = Some 3"
  "parseInt (js ''0x10'') = Some 16" "parseInt (js ''abc'') = None" "parseInt [] = None"
  by code_simp+

lemma parsePageRanges_examples:
  "parsePageRanges 10 (js ''1-3,5,7-9'') = [1, 2, 3, 5, 7, 8, 9]"
  "parsePageRanges 10 (js ''0,11'') = []"
  "parsePageRanges 10 (js ''  2 , 4-4 '') = [2, 4]"
  by code_simp+

subsection \<open>What \<open>parseInt\<close> reads, and the tokens of the specification\<close>

lemma parseInt_magnitude:
  "parseInt s =
     (let S = dropWhile isWhiteSpace s;
          sign = (if S \<noteq> [] \<and> hd S = HYPHEN then - 1 else 1 :: int);
          S = (if S \<noteq> [] \<and> (hd S = PLUS \<or> hd S = HYPHEN) then tl S else S)
      in map_option (\<lambda>m. sign * int m) (magnitude S))"
  by (simp add: parseInt_def magnitude_def Let_def)

lemma dropWhile_hd: "X = [] \<or> \<not> P (hd X) \<Longrightarrow> dropWhile P X = X"
  by (cases X) auto

lemma takeWhile_hd: "X = [] \<or> \<not> P (hd X) \<Longrightarrow> takeWhile P X = []"
  by (cases X) auto

lemma dropWhile_run:
  "\<forall>c\<in>set ws. P c \<Longrightarrow> X = [] \<or> \<not> P (hd X) \<Longrightarrow> dropWhile P (ws @ X) = X"
  by (induction ws) (simp_all add: dropWhile_hd)

lemma takeWhile_run:
  "\<forall>c\<in>set ds. P c \<Longrightarrow> X = [] \<or> \<not> P (hd X) \<Longrightarrow> takeWhile P (ds @ X) = ds"
  by (induction ds) (simp_all add: takeWhile_hd)

lemma digit_facts:
  assumes "isDigit c"
  shows "digitValue c = Some (c - 48)" "isRadixDigit 10 c" "isRadixDigit 16 c" "isHexDigit c"
    "\<not> isWhiteSpace c" "c \<noteq> PLUS" "c \<noteq> HYPHEN" "c \<noteq> COMMA" "c \<noteq> 120" "c \<noteq> 88"
  using assms
  by (auto simp: isDigit_def digitValue_def isRadixDigit_def isHexDigit_def isWhiteSpace_def
      PLUS_def HYPHEN_def COMMA_def)

lemma isRadixDigit_10: "isRadixDigit 10 c \<longleftrightarrow> isDigit c"
  by (auto simp: isDigit_def digitValue_def isRadixDigit_def split: if_splits)

lemma isRadixDigit_16: "isRadixDigit 16 c \<longleftrightarrow> isHexDigit c"
  by (auto simp: isDigit_def isHexDigit_def digitValue_def isRadixDigit_def split: if_splits)

lemma radixValue_10:
  "\<forall>c\<in>set ds. isDigit c \<Longrightarrow> radixValue 10 ds = literalValue ds"
proof -
  have "\<forall>c\<in>set ds. isDigit c \<Longrightarrow>
      foldl (\<lambda>acc c. acc * 10 + the (digitValue c)) v ds = foldl (\<lambda>v c. 10 * v + (c - 48)) v ds"
    for v
    by (induction ds arbitrary: v) (simp_all add: digit_facts(1) mult.commute)
  then show "\<forall>c\<in>set ds. isDigit c \<Longrightarrow> radixValue 10 ds = literalValue ds"
    by (simp add: radixValue_def literalValue_def)
qed

lemma hex_digitValue:
  "isHexDigit c \<Longrightarrow>
   the (digitValue c) = (if isDigit c then c - 48 else if 97 \<le> c then c - 87 else c - 55)"
  by (auto simp: isDigit_def isHexDigit_def digitValue_def)

lemma radixValue_16:
  "\<forall>c\<in>set hs. isHexDigit c \<Longrightarrow> radixValue 16 hs = hexValue hs"
proof -
  have "\<forall>c\<in>set hs. isHexDigit c \<Longrightarrow>
      foldl (\<lambda>acc c. acc * 16 + the (digitValue c)) v hs =
      foldl (\<lambda>v c. 16 * v + (if isDigit c then c - 48 else if 97 \<le> c then c - 87 else c - 55)) v hs"
    for v
    by (induction hs arbitrary: v) (simp_all add: hex_digitValue mult.commute)
  then show "\<forall>c\<in>set hs. isHexDigit c \<Longrightarrow> radixValue 16 hs = hexValue hs"
    by (simp add: radixValue_def hexValue_def)
qed

lemma magnitude_decimal:
  assumes lit: "integerLiteral ds" and stop: "rest = [] \<or> \<not> isDigit (hd rest)"
    and nohex: "take 2 (ds @ rest) \<notin> {js ''0x'', js ''0X''}"
  shows "magnitude (ds @ rest) = Some (literalValue ds)"
proof -
  from lit have ne: "ds \<noteq> []" and dg: "\<forall>c\<in>set ds. isDigit c"
    by (simp_all add: integerLiteral_def list_all_iff)
  have x: "js ''0x'' = [48, 120]" "js ''0X'' = [48, 88]" by (simp_all add: js_def)
  from nohex have hex: "\<not> (take 2 (ds @ rest) = [48, 120] \<or> take 2 (ds @ rest) = [48, 88])"
    by (simp only: x insert_iff empty_iff) simp
  from dg have dg': "\<forall>c\<in>set ds. isRadixDigit 10 c" by (simp add: isRadixDigit_10)
  from stop have stop': "rest = [] \<or> \<not> isRadixDigit 10 (hd rest)" by (simp add: isRadixDigit_10)
  have "takeWhile (isRadixDigit 10) (ds @ rest) = ds" using dg' stop' by (rule takeWhile_run)
  with hex ne show ?thesis by (simp add: magnitude_def Let_def radixValue_10 [OF dg])
qed

lemma magnitude_hex:
  assumes x: "x \<in> {js ''0x'', js ''0X''}" and ne: "hs \<noteq> []" and hd: "list_all isHexDigit hs"
    and stop: "rest = [] \<or> \<not> isHexDigit (hd rest)"
  shows "magnitude (x @ hs @ rest) = Some (hexValue hs)"
proof -
  from hd have dg: "\<forall>c\<in>set hs. isHexDigit c" by (simp add: list_all_iff)
  then have dg': "\<forall>c\<in>set hs. isRadixDigit 16 c" by (simp add: isRadixDigit_16)
  from stop have stop': "rest = [] \<or> \<not> isRadixDigit 16 (hd rest)" by (simp add: isRadixDigit_16)
  have t: "takeWhile (isRadixDigit 16) (hs @ rest) = hs" using dg' stop' by (rule takeWhile_run)
  from x have "x = [48, 120] \<or> x = [48, 88]" by (simp add: js_def)
  then show ?thesis using t ne by (auto simp: magnitude_def Let_def radixValue_16 [OF dg])
qed

lemma magnitude_none:
  assumes "rest = [] \<or> \<not> isDigit (hd rest)"
  shows "magnitude rest = None"
proof (cases rest)
  case Nil
  then show ?thesis by (simp add: magnitude_def)
next
  case (Cons c cs)
  with assms have nd: "\<not> isDigit c" by simp
  then have c: "c \<noteq> 48" by (auto simp: isDigit_def)
  from nd have "\<not> isRadixDigit 10 c" by (simp add: isRadixDigit_10)
  with Cons c show ?thesis by (cases cs) (simp_all add: magnitude_def Let_def)
qed

lemma magnitude_hex_none:
  assumes x: "x \<in> {js ''0x'', js ''0X''}" and stop: "rest = [] \<or> \<not> isHexDigit (hd rest)"
  shows "magnitude (x @ rest) = None"
proof -
  from stop have "rest = [] \<or> \<not> isRadixDigit 16 (hd rest)" by (simp add: isRadixDigit_16)
  then have t: "takeWhile (isRadixDigit 16) rest = []" by (rule takeWhile_hd)
  from x have "x = [48, 120] \<or> x = [48, 88]" by (simp add: js_def)
  then show ?thesis using t by (auto simp: magnitude_def Let_def)
qed

text \<open>The white space and the sign in front.\<close>

lemma parseInt_signed:
  assumes ws: "\<forall>c\<in>set ws. isWhiteSpace c" and sg: "sg \<in> {[PLUS], [HYPHEN]}"
  shows "parseInt (ws @ sg @ S) = map_option (\<lambda>m. signOf sg * int m) (magnitude S)"
proof -
  from sg have h: "sg @ S = [] \<or> \<not> isWhiteSpace (hd (sg @ S))"
    by (auto simp: isWhiteSpace_def PLUS_def HYPHEN_def)
  have "dropWhile isWhiteSpace (ws @ sg @ S) = sg @ S" using ws h by (rule dropWhile_run)
  with sg show ?thesis
    by (auto simp: parseInt_magnitude Let_def signOf_def PLUS_def HYPHEN_def)
qed

lemma parseInt_unsigned:
  assumes ws: "\<forall>c\<in>set ws. isWhiteSpace c"
    and h: "S = [] \<or> (\<not> isWhiteSpace (hd S) \<and> hd S \<noteq> PLUS \<and> hd S \<noteq> HYPHEN)"
  shows "parseInt (ws @ S) = map_option int (magnitude S)"
proof -
  from h have "S = [] \<or> \<not> isWhiteSpace (hd S)" by blast
  with ws have "dropWhile isWhiteSpace (ws @ S) = S" by (rule dropWhile_run)
  with h show ?thesis by (auto simp: parseInt_magnitude Let_def option.map_ident cong: option.map_cong)
qed

text \<open>Tokens of the grammar of the specification.\<close>

lemma literal_digits: "integerLiteral ds \<Longrightarrow> c \<in> set ds \<Longrightarrow> isDigit c"
  by (simp add: integerLiteral_def list_all_iff)

lemma literal_nohex:
  assumes "integerLiteral ds"
  shows "take 2 (ds @ []) \<notin> {js ''0x'', js ''0X''}"
proof
  assume "take 2 (ds @ []) \<in> {js ''0x'', js ''0X''}"
  then have "take 2 ds = [48, 120] \<or> take 2 ds = [48, 88]" by (simp add: js_def)
  then have "120 \<in> set (take 2 ds) \<or> 88 \<in> set (take 2 ds)" by auto
  then have "120 \<in> set ds \<or> 88 \<in> set ds" by (auto dest: in_set_takeD)
  then show False
  proof
    assume "120 \<in> set ds"
    from literal_digits [OF assms this] show False by (simp add: isDigit_def)
  next
    assume "88 \<in> set ds"
    from literal_digits [OF assms this] show False by (simp add: isDigit_def)
  qed
qed

lemma parseInt_literal:
  assumes "integerLiteral ds"
  shows "parseInt ds = Some (int (literalValue ds))"
proof -
  from assms have ne: "ds \<noteq> []" by (simp add: integerLiteral_def)
  then have "hd ds \<in> set ds" by simp
  from literal_digits [OF assms this]
  have h: "ds = [] \<or> (\<not> isWhiteSpace (hd ds) \<and> hd ds \<noteq> PLUS \<and> hd ds \<noteq> HYPHEN)"
    by (simp add: digit_facts)
  have m: "magnitude (ds @ []) = Some (literalValue ds)"
    using assms _ literal_nohex [OF assms] by (rule magnitude_decimal) simp
  from parseInt_unsigned [of "[]" ds, OF _ h] m show ?thesis by simp
qed

lemma trim_id:
  assumes "s \<noteq> []" "\<not> isWhiteSpace (hd s)" "\<not> isWhiteSpace (last s)"
  shows "trim s = s"
proof -
  have a: "dropWhile isWhiteSpace s = s" using assms(2) by (intro dropWhile_hd) simp
  have "hd (rev s) = last s" using assms(1) by (simp add: hd_rev)
  with assms(3) have b: "dropWhile isWhiteSpace (rev s) = rev s" by (intro dropWhile_hd) simp
  show ?thesis unfolding trim_def a b by simp
qed

lemma trim_literal: "integerLiteral ds \<Longrightarrow> trim ds = ds"
proof -
  assume l: "integerLiteral ds"
  then have ne: "ds \<noteq> []" by (simp add: integerLiteral_def)
  then have "hd ds \<in> set ds" "last ds \<in> set ds" by simp_all
  with literal_digits [OF l] have "\<not> isWhiteSpace (hd ds)" "\<not> isWhiteSpace (last ds)"
    by (simp_all add: digit_facts)
  with ne show ?thesis by (rule trim_id)
qed

lemma literal_no_hyphen: "integerLiteral ds \<Longrightarrow> HYPHEN \<notin> set ds"
  using literal_digits digit_facts(7) by blast

lemma parseToken_literal:
  assumes "integerLiteral t"
  shows "parseToken tp t [] = spec_token_pages tp t"
  using assms parseInt_literal [OF assms] literal_no_hyphen [OF assms]
  by (auto simp: parseToken_def spec_token_pages_def Let_def)

lemma parseToken_range:
  assumes nl: "\<not> integerLiteral t" and sp: "split HYPHEN t = [a, b]"
    and a: "integerLiteral a" and b: "integerLiteral b"
  shows "parseToken tp t [] = spec_token_pages tp t"
proof -
  from split_two(2) [OF sp] have h: "HYPHEN \<in> set t" .
  have e: "endpoints t = (Some (int (literalValue a)), Some (int (literalValue b)))"
    by (simp add: endpoints_def sp nth_field_def trim_literal a b parseInt_literal)
  show ?thesis
    using nl a b by (simp add: parseToken_def spec_token_pages_def h e sp Let_def pushRange_upto)
qed

lemma parseToken_grammar:
  assumes "spec_grammar t"
  shows "parseToken tp t [] = spec_token_pages tp t"
proof (cases "integerLiteral t")
  case True
  then show ?thesis by (rule parseToken_literal)
next
  case False
  with assms obtain a b where "split HYPHEN t = [a, b]" "integerLiteral a" "integerLiteral b"
    by (auto simp: spec_grammar_def split: list.splits)
  with False show ?thesis by (rule parseToken_range)
qed

lemma spec_token_pages_outside: "\<not> spec_grammar t \<Longrightarrow> spec_token_pages tp t = []"
  by (auto simp: spec_grammar_def spec_token_pages_def Let_def split: list.splits)

lemma spec_token_pages_subset: "set (spec_token_pages tp t) \<subseteq> set (parseToken tp t [])"
  by (cases "spec_grammar t") (simp_all add: parseToken_grammar spec_token_pages_outside)

lemma spec_parse_subset: "set (spec_parse tp s) \<subseteq> set (parsePageRanges tp s)"
  using spec_token_pages_subset by (fastforce simp: spec_parse_def set_parsePageRanges)

lemma sort_uniq_remdups: "sort (uniq [] xs) = sort (remdups (xs :: int list))"
proof (rule sorted_distinct_set_unique)
  show "sorted (sort (uniq [] xs))" "sorted (sort (remdups xs))" by simp_all
  show "distinct (sort (uniq [] xs))" by (simp add: distinct_uniq)
  show "distinct (sort (remdups xs))" by simp
  show "set (sort (uniq [] xs)) = set (sort (remdups xs))" by (simp add: set_uniq)
qed

lemma parse_on_grammar:
  assumes "\<forall>t\<in>set (map trim (split COMMA s)). spec_grammar t"
  shows "parsePageRanges tp s = spec_parse tp s"
proof -
  have eq: "map (\<lambda>t. parseToken tp t []) (map trim (split COMMA s)) =
        map (\<lambda>t. spec_token_pages tp (trim t)) (split COMMA s)"
    using assms by (simp add: parseToken_grammar)
  have "parsePageRanges tp s =
      sort (uniq [] (concat (map (\<lambda>t. parseToken tp t []) (map trim (split COMMA s)))))"
    by (simp add: parsePageRanges_def Let_def foldl_parseToken)
  also have "\<dots> = sort (remdups (concat (map (\<lambda>t. spec_token_pages tp (trim t)) (split COMMA s))))"
    unfolding eq by (rule sort_uniq_remdups)
  finally show ?thesis by (simp add: spec_parse_def)
qed

text \<open>The pages of the result, token by token, through the tests that the code makes.\<close>

lemma parse_membership:
  "p \<in> set (parsePageRanges totalPages rangeStr) \<longleftrightarrow>
      (\<exists>token\<in>set (map trim (split COMMA rangeStr)).
         if HYPHEN \<in> set token
         then (case endpoints token of
                 (Some start, Some end) \<Rightarrow>
                    0 < start \<and> end \<le> totalPages \<and> start \<le> end \<and> start \<le> p \<and> p \<le> end
               | _ \<Rightarrow> False)
         else parseInt token = Some p \<and> 1 \<le> p \<and> p \<le> totalPages)"
  unfolding set_parsePageRanges UN_iff set_parseToken ..

text \<open>
  What \<open>parseInt\<close> reads from a whole string: white space, a sign, then the digits;
  what follows the digits is ignored, and without a digit there is no integer.
\<close>

lemma parseInt_leading_decimal:
  assumes "\<forall>c\<in>set ws. isWhiteSpace c" "sg \<in> {[], [PLUS], [HYPHEN]}" "integerLiteral ds"
    "rest = [] \<or> \<not> isDigit (hd rest)" "take 2 (ds @ rest) \<notin> {js ''0x'', js ''0X''}"
  shows "parseInt (ws @ sg @ ds @ rest) = Some (signOf sg * int (literalValue ds))"
proof (cases "sg = []")
  case True
  from assms(3) have "ds \<noteq> []" "hd ds \<in> set ds" by (simp_all add: integerLiteral_def)
  with literal_digits [OF assms(3)] have "isDigit (hd (ds @ rest))" by simp
  then have h: "ds @ rest = [] \<or> (\<not> isWhiteSpace (hd (ds @ rest)) \<and> hd (ds @ rest) \<noteq> PLUS
      \<and> hd (ds @ rest) \<noteq> HYPHEN)" by (simp add: digit_facts)
  from parseInt_unsigned [OF assms(1) h] magnitude_decimal [OF assms(3,4,5)] True
  show ?thesis by (simp add: signOf_def)
next
  case False
  with assms(2) have "sg \<in> {[PLUS], [HYPHEN]}" by simp
  from parseInt_signed [OF assms(1) this] magnitude_decimal [OF assms(3,4,5)]
  show ?thesis by simp
qed

lemma parseInt_leading_hex:
  assumes "\<forall>c\<in>set ws. isWhiteSpace c" "sg \<in> {[], [PLUS], [HYPHEN]}"
    "x \<in> {js ''0x'', js ''0X''}" "hs \<noteq> []" "list_all isHexDigit hs"
    "rest = [] \<or> \<not> isHexDigit (hd rest)"
  shows "parseInt (ws @ sg @ x @ hs @ rest) = Some (signOf sg * int (hexValue hs))"
proof (cases "sg = []")
  case True
  from assms(3) have "hd (x @ hs @ rest) = 48" by (auto simp: js_def)
  then have h: "x @ hs @ rest = [] \<or> (\<not> isWhiteSpace (hd (x @ hs @ rest))
      \<and> hd (x @ hs @ rest) \<noteq> PLUS \<and> hd (x @ hs @ rest) \<noteq> HYPHEN)"
    by (simp add: isWhiteSpace_def PLUS_def HYPHEN_def)
  from parseInt_unsigned [OF assms(1) h] magnitude_hex [OF assms(3,4,5,6)] True
  show ?thesis by (simp add: signOf_def)
next
  case False
  with assms(2) have "sg \<in> {[PLUS], [HYPHEN]}" by simp
  from parseInt_signed [OF assms(1) this] magnitude_hex [OF assms(3,4,5,6)]
  show ?thesis by simp
qed

lemma parseInt_no_integer:
  assumes "\<forall>c\<in>set ws. isWhiteSpace c" "sg \<in> {[], [PLUS], [HYPHEN]}"
    "rest = [] \<or> \<not> isDigit (hd rest)"
    "sg = [] \<longrightarrow> rest = [] \<or> (\<not> isWhiteSpace (hd rest) \<and> hd rest \<noteq> PLUS \<and> hd rest \<noteq> HYPHEN)"
  shows "parseInt (ws @ sg @ rest) = None"
proof (cases "sg = []")
  case True
  with assms(4) have "rest = [] \<or> (\<not> isWhiteSpace (hd rest) \<and> hd rest \<noteq> PLUS \<and> hd rest \<noteq> HYPHEN)"
    by simp
  from parseInt_unsigned [OF assms(1) this] magnitude_none [OF assms(3)] True
  show ?thesis by simp
next
  case False
  with assms(2) have "sg \<in> {[PLUS], [HYPHEN]}" by simp
  from parseInt_signed [OF assms(1) this] magnitude_none [OF assms(3)]
  show ?thesis by simp
qed

lemma parseInt_no_hex_digit:
  assumes "\<forall>c\<in>set ws. isWhiteSpace c" "sg \<in> {[], [PLUS], [HYPHEN]}"
    "x \<in> {js ''0x'', js ''0X''}" "rest = [] \<or> \<not> isHexDigit (hd rest)"
  shows "parseInt (ws @ sg @ x @ rest) = None"
proof (cases "sg = []")
  case True
  from assms(3) have "hd (x @ rest) = 48" by (auto simp: js_def)
  then have h: "x @ rest = [] \<or> (\<not> isWhiteSpace (hd (x @ rest))
      \<and> hd (x @ rest) \<noteq> PLUS \<and> hd (x @ rest) \<noteq> HYPHEN)"
    by (simp add: isWhiteSpace_def PLUS_def HYPHEN_def)
  from parseInt_unsigned [OF assms(1) h] magnitude_hex_none [OF assms(3,4)] True
  show ?thesis by simp
next
  case False
  with assms(2) have "sg \<in> {[PLUS], [HYPHEN]}" by simp
  from parseInt_signed [OF assms(1) this] magnitude_hex_none [OF assms(3,4)]
  show ?thesis by simp
qed

subsection \<open>The claims about the parser\<close>

text \<open>
  C1, as amended. For every string and every page count, a page \<open>p\<close> is in the result
  of \<open>parsePageRanges\<close> exactly when some comma-delimited token, trimmed, contributes
  it: a token without hyphen contributes the integer that \<open>parseInt\<close> reads from it when
  there is one and it is between 1 and \<open>totalPages\<close>; a token with a hyphen contributes
  the integers from \<open>start\<close> to \<open>end\<close> when \<open>parseInt\<close> reads an integer from each of
  its first two fields, \<open>start > 0\<close>, \<open>end \<le> totalPages\<close> and \<open>start \<le> end\<close>; every
  other token contributes nothing. \<open>parseInt\<close> reads an integer from the start of its
  argument: after white space and an optional sign, the longest run of decimal digits, or of
  hexadecimal digits after \<open>0x\<close> or \<open>0X\<close>, and it ignores what follows; with no digit
  there it reads none. On the tokens of the grammar of the specification (an integer
  literal, or two of them separated by a hyphen) this is the rule of the specification,
  so a string of such tokens is parsed as the specification says, and every page that the
  specification accepts is accepted. The reversed range \<open>3-1\<close> gives the empty list.
\<close>

theorem parse_accepts_leading_integers:
  "(p \<in> set (parsePageRanges totalPages rangeStr) \<longleftrightarrow>
      (\<exists>token\<in>set (map trim (split COMMA rangeStr)).
         if HYPHEN \<in> set token
         then (case endpoints token of
                 (Some start, Some end) \<Rightarrow>
                    0 < start \<and> end \<le> totalPages \<and> start \<le> end \<and> start \<le> p \<and> p \<le> end
               | _ \<Rightarrow> False)
         else parseInt token = Some p \<and> 1 \<le> p \<and> p \<le> totalPages))
   \<and> ((\<forall>c\<in>set ws. isWhiteSpace c) \<and> sg \<in> {[], [PLUS], [HYPHEN]} \<and> integerLiteral ds
        \<and> (rest = [] \<or> \<not> isDigit (hd rest)) \<and> take 2 (ds @ rest) \<notin> {js ''0x'', js ''0X''}
      \<longrightarrow> parseInt (ws @ sg @ ds @ rest) = Some (signOf sg * int (literalValue ds)))
   \<and> ((\<forall>c\<in>set ws. isWhiteSpace c) \<and> sg \<in> {[], [PLUS], [HYPHEN]} \<and> x \<in> {js ''0x'', js ''0X''}
        \<and> hs \<noteq> [] \<and> list_all isHexDigit hs \<and> (rest = [] \<or> \<not> isHexDigit (hd rest))
      \<longrightarrow> parseInt (ws @ sg @ x @ hs @ rest) = Some (signOf sg * int (hexValue hs)))
   \<and> ((\<forall>c\<in>set ws. isWhiteSpace c) \<and> sg \<in> {[], [PLUS], [HYPHEN]}
        \<and> (rest = [] \<or> \<not> isDigit (hd rest))
        \<and> (sg = [] \<longrightarrow>
             rest = [] \<or> (\<not> isWhiteSpace (hd rest) \<and> hd rest \<noteq> PLUS \<and> hd rest \<noteq> HYPHEN))
      \<longrightarrow> parseInt (ws @ sg @ rest) = None)
   \<and> ((\<forall>c\<in>set ws. isWhiteSpace c) \<and> sg \<in> {[], [PLUS], [HYPHEN]} \<and> x \<in> {js ''0x'', js ''0X''}
        \<and> (rest = [] \<or> \<not> isHexDigit (hd rest))
      \<longrightarrow> parseInt (ws @ sg @ x @ rest) = None)
   \<and> (spec_grammar token \<longrightarrow>
        parseToken totalPages token pages = pages @ spec_token_pages totalPages token)
   \<and> ((\<forall>t\<in>set (map trim (split COMMA rangeStr)). spec_grammar t) \<longrightarrow>
        parsePageRanges totalPages rangeStr = spec_parse totalPages rangeStr)
   \<and> set (spec_parse totalPages rangeStr) \<subseteq> set (parsePageRanges totalPages rangeStr)
   \<and> parsePageRanges 10 (js ''3-1'') = []"
proof (intro conjI impI)
  show "p \<in> set (parsePageRanges totalPages rangeStr) \<longleftrightarrow>
      (\<exists>token\<in>set (map trim (split COMMA rangeStr)).
         if HYPHEN \<in> set token
         then (case endpoints token of
                 (Some start, Some end) \<Rightarrow>
                    0 < start \<and> end \<le> totalPages \<and> start \<le> end \<and> start \<le> p \<and> p \<le> end
               | _ \<Rightarrow> False)
         else parseInt token = Some p \<and> 1 \<le> p \<and> p \<le> totalPages)"
    by (rule parse_membership)
next
  assume "(\<forall>c\<in>set ws. isWhiteSpace c) \<and> sg \<in> {[], [PLUS], [HYPHEN]} \<and> integerLiteral ds
        \<and> (rest = [] \<or> \<not> isDigit (hd rest)) \<and> take 2 (ds @ rest) \<notin> {js ''0x'', js ''0X''}"
  then show "parseInt (ws @ sg @ ds @ rest) = Some (signOf sg * int (literalValue ds))"
    by (intro parseInt_leading_decimal) (elim conjE, assumption)+
next
  assume "(\<forall>c\<in>set ws. isWhiteSpace c) \<and> sg \<in> {[], [PLUS], [HYPHEN]} \<and> x \<in> {js ''0x'', js ''0X''}
        \<and> hs \<noteq> [] \<and> list_all isHexDigit hs \<and> (rest = [] \<or> \<not> isHexDigit (hd rest))"
  then show "parseInt (ws @ sg @ x @ hs @ rest) = Some (signOf sg * int (hexValue hs))"
    by (intro parseInt_leading_hex) (elim conjE, assumption)+
next
  assume "(\<forall>c\<in>set ws. isWhiteSpace c) \<and> sg \<in> {[], [PLUS], [HYPHEN]}
        \<and> (rest = [] \<or> \<not> isDigit (hd rest))
        \<and> (sg = [] \<longrightarrow>
             rest = [] \<or> (\<not> isWhiteSpace (hd rest) \<and> hd rest \<noteq> PLUS \<and> hd rest \<noteq> HYPHEN))"
  then show "parseInt (ws @ sg @ rest) = None"
    by (intro parseInt_no_integer) (elim conjE, assumption)+
next
  assume "(\<forall>c\<in>set ws. isWhiteSpace c) \<and> sg \<in> {[], [PLUS], [HYPHEN]} \<and> x \<in> {js ''0x'', js ''0X''}
        \<and> (rest = [] \<or> \<not> isHexDigit (hd rest))"
  then show "parseInt (ws @ sg @ x @ rest) = None"
    by (intro parseInt_no_hex_digit) (elim conjE, assumption)+
next
  assume "spec_grammar token"
  then show "parseToken totalPages token pages = pages @ spec_token_pages totalPages token"
    using parseToken_append [of totalPages token pages] by (simp add: parseToken_grammar)
next
  assume "\<forall>t\<in>set (map trim (split COMMA rangeStr)). spec_grammar t"
  then show "parsePageRanges totalPages rangeStr = spec_parse totalPages rangeStr"
    by (rule parse_on_grammar)
next
  show "set (spec_parse totalPages rangeStr) \<subseteq> set (parsePageRanges totalPages rangeStr)"
    by (rule spec_parse_subset)
  show "parsePageRanges 10 (js ''3-1'') = []" by code_simp
qed

theorem parse_accepts_leading_integers_witness:
  "2 \<in> set (parsePageRanges 10 (js ''1-3, x, 12''))
   \<and> 12 \<notin> set (parsePageRanges 10 (js ''1-3, x, 12''))
   \<and> parseInt (js ''  +12abc'') = Some 12
   \<and> parseInt (js ''0x1Fg'') = Some 31
   \<and> parseInt (js '' abc'') = None
   \<and> parseInt (js ''0xg'') = None
   \<and> parseToken 10 (js ''4-6'') [1] = [1, 4, 5, 6]
   \<and> parsePageRanges 10 (js '' 1-3,5 ,7-9'') = spec_parse 10 (js '' 1-3,5 ,7-9'')"
proof -
  let ?s = "js ''1-3, x, 12''"
  note t = parse_accepts_leading_integers
  have yes: "\<exists>token\<in>set (map trim (split COMMA ?s)).
         if HYPHEN \<in> set token
         then (case endpoints token of
                 (Some start, Some end) \<Rightarrow>
                    0 < start \<and> end \<le> 10 \<and> start \<le> end \<and> start \<le> 2 \<and> 2 \<le> end
               | _ \<Rightarrow> False)
         else parseInt token = Some 2 \<and> 1 \<le> (2::int) \<and> (2::int) \<le> 10"
    by code_simp
  have no: "\<not> (\<exists>token\<in>set (map trim (split COMMA ?s)).
         if HYPHEN \<in> set token
         then (case endpoints token of
                 (Some start, Some end) \<Rightarrow>
                    0 < start \<and> end \<le> 10 \<and> start \<le> end \<and> start \<le> 12 \<and> 12 \<le> end
               | _ \<Rightarrow> False)
         else parseInt token = Some 12 \<and> 1 \<le> (12::int) \<and> (12::int) \<le> 10)"
    by code_simp
  from yes have a: "2 \<in> set (parsePageRanges 10 ?s)"
    using t [where p = 2 and totalPages = 10 and rangeStr = ?s, THEN conjunct1] by blast
  from no have b: "12 \<notin> set (parsePageRanges 10 ?s)"
    using t [where p = 12 and totalPages = 10 and rangeStr = ?s, THEN conjunct1] by blast
  have h1: "(\<forall>c\<in>set (js ''  ''). isWhiteSpace c) \<and> [PLUS] \<in> {[], [PLUS], [HYPHEN]}
      \<and> integerLiteral (js ''12'') \<and> (js ''abc'' = [] \<or> \<not> isDigit (hd (js ''abc'')))
      \<and> take 2 (js ''12'' @ js ''abc'') \<notin> {js ''0x'', js ''0X''}"
    by code_simp
  have e1: "js ''  '' @ [PLUS] @ js ''12'' @ js ''abc'' = js ''  +12abc''" by code_simp
  have v1: "signOf [PLUS] * int (literalValue (js ''12'')) = 12" by code_simp
  from t [where ws = "js ''  ''" and sg = "[PLUS]" and ds = "js ''12''" and rest = "js ''abc''",
      THEN conjunct2, THEN conjunct1, THEN mp, OF h1]
  have c: "parseInt (js ''  +12abc'') = Some 12" unfolding e1 v1 .
  have h2: "(\<forall>c\<in>set ([] :: jsstring). isWhiteSpace c) \<and> [] \<in> {[], [PLUS], [HYPHEN]}
      \<and> js ''0x'' \<in> {js ''0x'', js ''0X''} \<and> js ''1F'' \<noteq> [] \<and> list_all isHexDigit (js ''1F'')
      \<and> (js ''g'' = [] \<or> \<not> isHexDigit (hd (js ''g'')))"
    by code_simp
  have e2: "[] @ [] @ js ''0x'' @ js ''1F'' @ js ''g'' = js ''0x1Fg''" by code_simp
  have v2: "signOf [] * int (hexValue (js ''1F'')) = 31" by code_simp
  from t [where ws = "[]" and sg = "[]" and x = "js ''0x''" and hs = "js ''1F''" and rest = "js ''g''",
      THEN conjunct2, THEN conjunct2, THEN conjunct1, THEN mp, OF h2]
  have d: "parseInt (js ''0x1Fg'') = Some 31" unfolding e2 v2 .
  have h3: "(\<forall>c\<in>set (js '' ''). isWhiteSpace c) \<and> [] \<in> {[], [PLUS], [HYPHEN]}
      \<and> (js ''abc'' = [] \<or> \<not> isDigit (hd (js ''abc'')))
      \<and> (([] :: jsstring) = [] \<longrightarrow> js ''abc'' = [] \<or> (\<not> isWhiteSpace (hd (js ''abc''))
            \<and> hd (js ''abc'') \<noteq> PLUS \<and> hd (js ''abc'') \<noteq> HYPHEN))"
    by code_simp
  have e3: "js '' '' @ [] @ js ''abc'' = js '' abc''" by code_simp
  from t [where ws = "js '' ''" and sg = "[]" and rest = "js ''abc''",
      THEN conjunct2, THEN conjunct2, THEN conjunct2, THEN conjunct1, THEN mp, OF h3]
  have e: "parseInt (js '' abc'') = None" unfolding e3 .
  have h4: "(\<forall>c\<in>set ([] :: jsstring). isWhiteSpace c) \<and> [] \<in> {[], [PLUS], [HYPHEN]}
      \<and> js ''0x'' \<in> {js ''0x'', js ''0X''} \<and> (js ''g'' = [] \<or> \<not> isHexDigit (hd (js ''g'')))"
    by code_simp
  have e4: "[] @ [] @ js ''0x'' @ js ''g'' = js ''0xg''" by code_simp
  from t [where ws = "[]" and sg = "[]" and x = "js ''0x''" and rest = "js ''g''",
      THEN conjunct2, THEN conjunct2, THEN conjunct2, THEN conjunct2, THEN conjunct1, THEN mp, OF h4]
  have f: "parseInt (js ''0xg'') = None" unfolding e4 .
  have h5: "spec_grammar (js ''4-6'')" by code_simp
  have v5: "[1] @ spec_token_pages 10 (js ''4-6'') = [1, 4, 5, 6]" by code_simp
  from t [where token = "js ''4-6''" and totalPages = 10 and pages = "[1]",
      THEN conjunct2, THEN conjunct2, THEN conjunct2, THEN conjunct2, THEN conjunct2,
      THEN conjunct1, THEN mp, OF h5]
  have g: "parseToken 10 (js ''4-6'') [1] = [1, 4, 5, 6]" unfolding v5 .
  have h6: "\<forall>t\<in>set (map trim (split COMMA (js '' 1-3,5 ,7-9''))). spec_grammar t" by code_simp
  from t [where rangeStr = "js '' 1-3,5 ,7-9''" and totalPages = 10,
      THEN conjunct2, THEN conjunct2, THEN conjunct2, THEN conjunct2, THEN conjunct2,
      THEN conjunct2, THEN conjunct1, THEN mp, OF h6]
  have h: "parsePageRanges 10 (js '' 1-3,5 ,7-9'') = spec_parse 10 (js '' 1-3,5 ,7-9'')" .
  from a b c d e f g h show ?thesis by (intro conjI)
qed

text \<open>
  The claim as it was stated fails: the token \<open>3abc\<close> is neither an integer literal nor
  two of them separated by a hyphen, so the rules of the specification drop it, and
  \<open>parsePageRanges\<close> accepts it as page 3.
\<close>

theorem parse_accept_drop_counterexample:
  "\<not> spec_grammar (js ''3abc'')
   \<and> spec_parse 10 (js ''3abc'') = []
   \<and> parsePageRanges 10 (js ''3abc'') = [3]
   \<and> parsePageRanges 10 (js ''3abc'') \<noteq> spec_parse 10 (js ''3abc'')"
  by code_simp

text \<open>
  C2. For every string and every page count, the list that \<open>parsePageRanges\<close> returns
  is strictly ascending, so without duplicates, and each of its elements is a page
  between 1 and \<open>totalPages\<close>.
\<close>

theorem parse_strictly_ascending_in_bounds:
  "sorted_wrt (<) (parsePageRanges totalPages rangeStr)
   \<and> distinct (parsePageRanges totalPages rangeStr)
   \<and> (\<forall>p\<in>set (parsePageRanges totalPages rangeStr). 1 \<le> p \<and> p \<le> totalPages)"
proof -
  have "sorted_wrt (<) (parsePageRanges totalPages rangeStr)"
    by (rule strict_parsePageRanges)
  moreover from this have "distinct (parsePageRanges totalPages rangeStr)"
    by (simp add: strict_sorted_iff)
  moreover have "1 \<le> p \<and> p \<le> totalPages"
    if "p \<in> set (parsePageRanges totalPages rangeStr)" for p
  proof -
    from that obtain t where "p \<in> set (parseToken totalPages t [])"
      unfolding set_parsePageRanges by blast
    then show ?thesis
      unfolding set_parseToken by (auto split: if_splits option.splits prod.splits)
  qed
  ultimately show ?thesis by blast
qed

theorem parse_strictly_ascending_in_bounds_witness:
  "7 \<in> set (parsePageRanges 10 (js ''7-9,1-3,5,2''))
   \<and> sorted_wrt (<) (parsePageRanges 10 (js ''7-9,1-3,5,2''))
   \<and> 1 \<le> (7::int) \<and> (7::int) \<le> 10"
proof -
  have "7 \<in> set (parsePageRanges 10 (js ''7-9,1-3,5,2''))" by code_simp
  then show ?thesis
    using parse_strictly_ascending_in_bounds [of 10 "js ''7-9,1-3,5,2''"] by simp
qed

text \<open>
  C4. \<open>parsePageRanges\<close> never raises: it is a total function of the string and the page
  count (every loop in it ends, and none of the operations it uses can throw), and a
  token that is not accepted changes nothing. The empty string, and a string of white
  space and commas only, give the empty list; and the pages of a string cut at a comma
  are those of the two parts, so that the valid tokens around an invalid one are kept.
\<close>

theorem parse_total_empty_or_partial:
  "parsePageRanges totalPages [] = []
   \<and> ((\<forall>c\<in>set s. isWhiteSpace c \<or> c = COMMA) \<longrightarrow> parsePageRanges totalPages s = [])
   \<and> set (parsePageRanges totalPages (s1 @ COMMA # s2)) =
       set (parsePageRanges totalPages s1) \<union> set (parsePageRanges totalPages s2)"
proof (intro conjI impI)
  show "parsePageRanges totalPages [] = []"
    by (simp add: parsePageRanges_def split_def parseToken_Nil trim_def)
  show "set (parsePageRanges totalPages (s1 @ COMMA # s2)) =
       set (parsePageRanges totalPages s1) \<union> set (parsePageRanges totalPages s2)"
    by (simp add: set_parsePageRanges split_append)
next
  assume blank: "\<forall>c\<in>set s. isWhiteSpace c \<or> c = COMMA"
  have "trim f = []" if "f \<in> set (split COMMA s)" for f
  proof (rule trim_blank)
    from split_fields [OF that] blank show "\<forall>c\<in>set f. isWhiteSpace c" by blast
  qed
  then have "set (parsePageRanges totalPages s) = {}"
    by (simp add: set_parsePageRanges parseToken_Nil)
  then show "parsePageRanges totalPages s = []" by simp
qed

theorem parse_total_empty_or_partial_witness:
  "parsePageRanges 10 (js '' , ,  '') = []"
proof -
  have "\<forall>c\<in>set (js '' , ,  ''). isWhiteSpace c \<or> c = COMMA" by code_simp
  then show ?thesis
    using parse_total_empty_or_partial [of 10 "js '' , ,  ''"] by blast
qed

text \<open>
  C10. A token with two hyphens or more is read through its first two fields only:
  what comes after the second hyphen has no effect, so that such a token, which the
  grammar of the specification does not have, can be accepted; \<open>1-3-5\<close> gives the
  pages 1, 2 and 3.
\<close>

theorem parse_extra_hyphen_fields_ignored:
  "(split HYPHEN token = f0 # f1 # rest \<longrightarrow>
      parseToken totalPages token pages = parseToken totalPages (f0 @ HYPHEN # f1) pages)
   \<and> parsePageRanges 10 (js ''1-3-5'') = [1, 2, 3]"
proof (intro conjI impI)
  assume fields: "split HYPHEN token = f0 # f1 # rest"
  from split_two [OF fields] fields
  show "parseToken totalPages token pages = parseToken totalPages (f0 @ HYPHEN # f1) pages"
    by (simp add: parseToken_def endpoints_def nth_field_def)
next
  show "parsePageRanges 10 (js ''1-3-5'') = [1, 2, 3]" by code_simp
qed

theorem parse_extra_hyphen_fields_ignored_witness:
  "split HYPHEN (js ''1-3-5'') = [js ''1'', js ''3'', js ''5'']
   \<and> parseToken 10 (js ''1-3-5'') [] = parseToken 10 (js ''1-3'') []
   \<and> parseToken 10 (js ''1-3-5'') [] = [1, 2, 3]"
proof -
  have fields: "split HYPHEN (js ''1-3-5'') = js ''1'' # js ''3'' # [js ''5'']" by code_simp
  have tok: "js ''1'' @ HYPHEN # js ''3'' = js ''1-3''" by code_simp
  have val: "parseToken 10 (js ''1-3'') [] = [1, 2, 3]" by code_simp
  from fields tok val show ?thesis
    using parse_extra_hyphen_fields_ignored
      [of "js ''1-3-5''" "js ''1''" "js ''3''" "[js ''5'']" 10 "[]"]
    by simp
qed

section \<open>Properties of the grouping\<close>

lemma groupPages_closed:
  "groupPages tp pages = closed (groupLoop tp None (sort pages) ([], []))"
  by (simp add: groupPages_def closed_def Let_def split: prod.splits)

lemma consecutive_single: "consecutive [p]"
  by (simp add: consecutive_def)

lemma consecutive_le: "consecutive r \<Longrightarrow> hd r \<le> last r"
  by (metis consecutive_def upto_Nil2 not_le)

lemma consecutive_snoc:
  assumes "consecutive r"
  shows "consecutive (r @ [last r + 1])"
proof -
  from assms have ne: "r \<noteq> []" and eq: "r = [hd r..last r]" by (simp_all add: consecutive_def)
  have le: "hd r \<le> last r" using assms by (rule consecutive_le)
  have "[hd r..last r + 1] = [hd r..last r] @ [last r + 1]" using le by (simp add: upto_rec2)
  with eq have *: "r @ [last r + 1] = [hd r..last r + 1]" by simp
  have h: "hd (r @ [last r + 1]) = hd r" using ne by simp
  have l: "last (r @ [last r + 1]) = last r + 1" by simp
  show ?thesis unfolding consecutive_def h l using le by (simp add: *)
qed

lemma bounds_hd_last: "r \<noteq> [] \<Longrightarrow> bounds r = (hd r, last r)"
  by (simp add: bounds_def hd_conv_nth last_conv_nth)

lemma mergeable_free_snoc:
  "mergeable_free (rs @ [(c, d)]) \<longleftrightarrow> mergeable_free rs \<and> (rs = [] \<or> c \<noteq> snd (last rs) + 1)"
  by (induction rs rule: mergeable_free.induct) auto

lemma closed_simps:
  "closed (ranges, []) = ranges" "cur \<noteq> [] \<Longrightarrow> closed (ranges, cur) = ranges @ [cur]"
  by (simp_all add: closed_def)

lemma groupLoop_step:
  assumes "group_inv prev ranges cur" "1 \<le> page" "page \<le> tp"
  shows "\<exists>ranges' cur'. groupLoop tp prev (page # rest) (ranges, cur) = groupLoop tp (Some page) rest (ranges', cur')
     \<and> group_inv (Some page) ranges' cur' \<and> concat (closed (ranges', cur')) = concat (closed (ranges, cur)) @ [page]"
proof (cases "case prev of None \<Rightarrow> True | Some q \<Rightarrow> page \<noteq> q + 1")
  case True
  let ?rs = "closed (ranges, cur)"
  have step: "groupLoop tp prev (page # rest) (ranges, cur) = groupLoop tp (Some page) rest (?rs, [page])"
    using True assms(2,3) by (simp add: closed_def)
  have "rs = [] \<or> page \<noteq> snd (last (map bounds ?rs)) + 1" if "rs = ?rs" for rs
  proof (cases "cur = []")
    case True
    with assms(1) show ?thesis by (simp add: group_inv_def that closed_simps)
  next
    case False
    with assms(1) have "prev = Some (last cur)" by (simp add: group_inv_def)
    with \<open>case prev of None \<Rightarrow> True | Some q \<Rightarrow> page \<noteq> q + 1\<close> have "page \<noteq> last cur + 1" by simp
    with False show ?thesis by (simp add: closed_simps bounds_hd_last)
  qed
  then have "group_inv (Some page) ?rs [page]"
    using assms(1) by (auto simp: group_inv_def closed_simps consecutive_single mergeable_free_snoc bounds_hd_last)
  moreover have "concat (closed (?rs, [page])) = concat ?rs @ [page]" by (simp add: closed_simps)
  ultimately show ?thesis using step by blast
next
  case False
  then obtain q where q: "prev = Some q" "page = q + 1" by (auto split: option.splits)
  have step: "groupLoop tp prev (page # rest) (ranges, cur) = groupLoop tp (Some page) rest (ranges, cur @ [page])"
    using q assms(2,3) by simp
  show ?thesis
  proof (cases "cur = []")
    case True
    with assms(1) have "ranges = []" by (simp add: group_inv_def)
    with True have "group_inv (Some page) ranges (cur @ [page])"
      by (simp add: group_inv_def closed_simps consecutive_single)
    moreover have "concat (closed (ranges, cur @ [page])) = concat (closed (ranges, cur)) @ [page]"
      using True by (simp add: closed_simps)
    ultimately show ?thesis using step by blast
  next
    case False
    with assms(1) q have l: "last cur = q" by (simp add: group_inv_def)
    from assms(1) False have c: "consecutive cur" by (simp add: group_inv_def closed_simps)
    from consecutive_snoc [OF c] l q have c': "consecutive (cur @ [page])" by simp
    have "group_inv (Some page) ranges (cur @ [page])"
      using assms(1) False c' by (auto simp: group_inv_def closed_simps mergeable_free_snoc bounds_hd_last)
    moreover have "concat (closed (ranges, cur @ [page])) = concat (closed (ranges, cur)) @ [page]"
      using False by (simp add: closed_simps)
    ultimately show ?thesis using step by blast
  qed
qed

lemma groupLoop_inv:
  assumes "\<forall>p\<in>set xs. 1 \<le> p \<and> p \<le> tp" "group_inv prev ranges cur"
  shows "\<exists>prev' ranges' cur'. groupLoop tp prev xs (ranges, cur) = (ranges', cur')
     \<and> group_inv prev' ranges' cur' \<and> concat (closed (ranges', cur')) = concat (closed (ranges, cur)) @ xs"
  using assms
proof (induction xs arbitrary: prev ranges cur)
  case Nil
  then show ?case by auto
next
  case (Cons page rest)
  from Cons.prems have pg: "1 \<le> page" "page \<le> tp" by simp_all
  from groupLoop_step [OF Cons.prems(2) pg, of rest]
  obtain r1 c1 where s: "groupLoop tp prev (page # rest) (ranges, cur) = groupLoop tp (Some page) rest (r1, c1)"
    and i: "group_inv (Some page) r1 c1"
    and c: "concat (closed (r1, c1)) = concat (closed (ranges, cur)) @ [page]" by blast
  from Cons.prems have "\<forall>p\<in>set rest. 1 \<le> p \<and> p \<le> tp" by simp
  from Cons.IH [OF this i] s c show ?case by auto
qed

lemma group_inv_init: "group_inv None [] []"
  by (simp add: group_inv_def closed_simps)

lemma groupPages_props:
  assumes "\<forall>p\<in>set pages. 1 \<le> p \<and> p \<le> tp"
  shows "\<forall>r\<in>set (groupPages tp pages). consecutive r"
    and "mergeable_free (map bounds (groupPages tp pages))"
    and "concat (groupPages tp pages) = sort pages"
proof -
  from assms have "\<forall>p\<in>set (sort pages). 1 \<le> p \<and> p \<le> tp" by simp
  from groupLoop_inv [OF this group_inv_init]
  obtain prev' ranges' cur' where
    g: "groupLoop tp None (sort pages) ([], []) = (ranges', cur')" and
    i: "group_inv prev' ranges' cur'" and
    c: "concat (closed (ranges', cur')) = concat (closed ([], [])) @ sort pages" by blast
  from g have G: "groupPages tp pages = closed (ranges', cur')" by (simp add: groupPages_closed)
  from i show "\<forall>r\<in>set (groupPages tp pages). consecutive r" by (simp add: G group_inv_def)
  from i show "mergeable_free (map bounds (groupPages tp pages))" by (simp add: G group_inv_def)
  from c show "concat (groupPages tp pages) = sort pages" by (simp add: G closed_simps)
qed

lemma breaks_append:
  "xs \<noteq> [] \<Longrightarrow> ys \<noteq> [] \<Longrightarrow>
   breaks (xs @ ys) = breaks xs + breaks ys + (if hd ys = last xs + 1 then 0 else 1)"
proof (induction xs rule: breaks.induct)
  case 1
  then show ?case by simp
next
  case (2 x)
  then show ?case by (cases ys) auto
next
  case (3 x y zs)
  then show ?case by simp
qed

lemma hd_upto_le: "a \<le> b \<Longrightarrow> hd [a..b] = a"
  by (simp add: upto_rec1)

lemma last_upto_le: "a \<le> b \<Longrightarrow> last [a..b] = b"
  by (simp add: upto_rec2)

lemma breaks_consecutive: "consecutive r \<Longrightarrow> breaks r = 0"
proof (induction r rule: breaks.induct)
  case 1
  then show ?case by simp
next
  case (2 x)
  then show ?case by simp
next
  case (3 x y zs)
  define L where "L = last (y # zs)"
  have "last (x # y # zs) = L" by (simp add: L_def)
  with 3(2) have eq: "x # y # zs = [x..L]" by (simp add: consecutive_def del: last.simps)
  then have le: "x \<le> L" by (metis list.distinct(1) upto_Nil2 not_le)
  with eq have "x # y # zs = x # [x + 1..L]" by (simp add: upto_rec1)
  then have tl: "y # zs = [x + 1..L]" by simp
  then have le': "x + 1 \<le> L" by (metis list.distinct(1) upto_Nil2 not_le)
  from tl have "hd (y # zs) = hd [x + 1..L]" by simp
  with le' have y: "y = x + 1" by (simp add: hd_upto_le)
  from tl y have "y # zs = [hd (y # zs)..last (y # zs)]" by (simp add: L_def del: last.simps)
  then have "consecutive (y # zs)" by (simp add: consecutive_def del: last.simps)
  with y show ?case using 3(1) by simp
qed

lemma consecutive_upto: "a \<le> b \<Longrightarrow> consecutive [a..b]"
  by (simp add: consecutive_def hd_upto_le last_upto_le)

lemma flatten_Cons: "flatten ((a, b) # rs) = [a..b] @ flatten rs"
  by (simp add: flatten_def)

lemma flatten_ne: "\<forall>(a, b)\<in>set rs. a \<le> b \<Longrightarrow> rs \<noteq> [] \<Longrightarrow> flatten rs \<noteq> []"
  by (cases rs) (auto simp: flatten_Cons)

lemma breaks_flatten:
  "\<forall>(a, b)\<in>set rs. a \<le> b \<Longrightarrow> rs \<noteq> [] \<Longrightarrow> breaks (flatten rs) + 1 \<le> length rs"
proof (induction rs)
  case Nil
  then show ?case by simp
next
  case (Cons r rs)
  obtain a b where r: "r = (a, b)" by (cases r)
  with Cons.prems have ab: "a \<le> b" by simp
  show ?case
  proof (cases "rs = []")
    case True
    with r ab show ?thesis by (simp add: flatten_def breaks_consecutive consecutive_upto)
  next
    case False
    from Cons.prems have v: "\<forall>(a, b)\<in>set rs. a \<le> b" by simp
    from Cons.IH [OF v False] have ih: "breaks (flatten rs) + 1 \<le> length rs" .
    have ne: "flatten rs \<noteq> []" using v False by (rule flatten_ne)
    have ne': "[a..b] \<noteq> []" using ab by simp
    have "breaks ([a..b] @ flatten rs) \<le> breaks [a..b] + breaks (flatten rs) + 1"
      by (simp add: breaks_append [OF ne' ne])
    then show ?thesis using ih r ab
      by (simp add: flatten_Cons breaks_consecutive consecutive_upto)
  qed
qed

lemma breaks_groups:
  "\<forall>r\<in>set G. consecutive r \<Longrightarrow> mergeable_free (map bounds G) \<Longrightarrow> G \<noteq> [] \<Longrightarrow>
   breaks (concat G) + 1 = length G"
proof (induction G)
  case Nil
  then show ?case by simp
next
  case (Cons r G)
  have cr: "consecutive r" using Cons.prems(1) by simp
  then have rne: "r \<noteq> []" by (simp add: consecutive_def)
  show ?case
  proof (cases G)
    case Nil
    with cr show ?thesis by (simp add: breaks_consecutive)
  next
    case (Cons r2 G2)
    have cr2: "consecutive r2" using Cons.prems(1) Cons by simp
    then have r2ne: "r2 \<noteq> []" by (simp add: consecutive_def)
    from Cons.prems(2) Cons rne r2ne have jump: "hd r2 \<noteq> last r + 1"
      and mf: "mergeable_free (map bounds G)"
      by (simp_all add: bounds_hd_last)
    have Gne: "G \<noteq> []" using Cons by simp
    from Cons.IH [OF _ mf Gne] Cons.prems(1) have ih: "breaks (concat G) + 1 = length G" by simp
    have cne: "concat G \<noteq> []" using Cons r2ne by simp
    have hd: "hd (concat G) = hd r2" using Cons r2ne by simp
    have "breaks (r @ concat G) = breaks r + breaks (concat G) + 1"
      using breaks_append [OF rne cne] hd jump by simp
    with ih cr show ?thesis by (simp add: breaks_consecutive)
  qed
qed

lemma compact_valid:
  assumes "\<forall>p\<in>set pages. 1 \<le> p \<and> p \<le> tp"
  shows "\<forall>(start, end)\<in>set (compact tp pages). start \<le> end"
proof -
  have "a \<le> b" if "(a, b) \<in> set (compact tp pages)" for a b
  proof -
    from that obtain r where r: "r \<in> set (groupPages tp pages)" and ab: "bounds r = (a, b)"
      by (auto simp: compact_def)
    from groupPages_props(1) [OF assms] r have c: "consecutive r" by blast
    then have "r \<noteq> []" by (simp add: consecutive_def)
    with consecutive_le [OF c] ab show ?thesis by (simp add: bounds_hd_last)
  qed
  then show ?thesis by blast
qed

lemma flatten_bounds: "\<forall>r\<in>set G. consecutive r \<Longrightarrow> flatten (map bounds G) = concat G"
proof (induction G)
  case Nil
  show ?case by (simp add: flatten_def)
next
  case (Cons r G)
  then have c: "consecutive r" by simp
  then have "r \<noteq> []" and "[hd r..last r] = r" by (simp_all add: consecutive_def)
  with Cons show ?case by (simp add: bounds_hd_last flatten_Cons)
qed

lemma flatten_compact:
  assumes "\<forall>p\<in>set pages. 1 \<le> p \<and> p \<le> tp"
  shows "flatten (compact tp pages) = sort pages"
  using flatten_bounds [OF groupPages_props(1) [OF assms]] groupPages_props(3) [OF assms]
  by (simp add: compact_def)

lemma sort_strict: "sorted_wrt (<) xs \<Longrightarrow> sort xs = (xs :: int list)"
  by (simp add: strict_sorted_iff sorted_sort_id)

lemma compact_minimal:
  assumes inr: "\<forall>p\<in>set pages. 1 \<le> p \<and> p \<le> tp"
    and valid: "\<forall>(a, b)\<in>set rs. a \<le> b" and cover: "flatten rs = sort pages"
  shows "length (compact tp pages) \<le> length rs"
proof (cases "groupPages tp pages = []")
  case True
  then show ?thesis by (simp add: compact_def)
next
  case False
  from breaks_groups [OF groupPages_props(1,2) [OF inr] False] groupPages_props(3) [OF inr]
  have len: "breaks (sort pages) + 1 = length (groupPages tp pages)" by simp
  have "sort pages \<noteq> []"
  proof
    assume "sort pages = []"
    with groupPages_props(3) [OF inr] have "concat (groupPages tp pages) = []" by simp
    moreover from groupPages_props(1) [OF inr] have "\<forall>r\<in>set (groupPages tp pages). r \<noteq> []"
      by (auto simp: consecutive_def)
    ultimately show False using False by (cases "groupPages tp pages") auto
  qed
  with cover have "rs \<noteq> []" by (auto simp: flatten_def)
  from breaks_flatten [OF valid this] cover len show ?thesis by (simp add: compact_def)
qed

text \<open>A cover by valid ranges that are nowhere mergeable is unique.\<close>

lemma upto_append_eq:
  assumes "a \<le> b" "c \<le> d" "[a..b] @ X = [c..d] @ Y" "b < d"
  shows "a = c \<and> X \<noteq> [] \<and> hd X = b + 1"
proof -
  have ne: "[a..b] \<noteq> []" "[c..d] \<noteq> []" using assms(1,2) by simp_all
  from arg_cong [OF assms(3), where f = hd]
  have "hd [a..b] = hd [c..d]" unfolding hd_append using ne by (simp only: if_False)
  then have ac: "a = c" using assms(1,2) by (simp only: hd_upto_le)
  have "[a..d] = [a..b] @ [b + 1..d]" using assms(1,4) by (intro upto_split2) simp_all
  with assms(3) ac have "[a..b] @ X = [a..b] @ ([b + 1..d] @ Y)" by (simp only: append_assoc)
  then have X: "X = [b + 1..d] @ Y" by (simp only: same_append_eq)
  have ne': "[b + 1..d] \<noteq> []" using assms(4) by simp
  from X ne' have "X \<noteq> []" by simp
  moreover have "hd X = b + 1" unfolding X hd_append using ne' assms(4)
    by (simp add: hd_upto_le)
  ultimately show ?thesis using ac by simp
qed

lemma hd_flatten: "a \<le> b \<Longrightarrow> hd (flatten ((a, b) # rs)) = a"
  by (simp add: flatten_Cons hd_upto_le)

lemma no_longer_span:
  assumes v1: "a \<le> b" and v2: "c \<le> d"
    and rs: "\<forall>(a, b)\<in>set rs. a \<le> b" and mf: "mergeable_free ((a, b) # rs)"
    and eq: "[a..b] @ flatten rs = [c..d] @ Y"
  shows "\<not> b < d"
proof
  assume "b < d"
  from upto_append_eq [OF v1 v2 eq this] have ne: "flatten rs \<noteq> []" and h: "hd (flatten rs) = b + 1"
    by simp_all
  from ne obtain e f rs' where r: "rs = (e, f) # rs'" by (cases rs) (auto simp: flatten_def)
  with rs have "e \<le> f" by simp
  from hd_flatten [OF this] h r have "e = b + 1" by simp
  with mf r show False by simp
qed

lemma unique_cover:
  "\<forall>(a, b)\<in>set rs1. a \<le> b \<Longrightarrow> \<forall>(a, b)\<in>set rs2. a \<le> b \<Longrightarrow>
   mergeable_free rs1 \<Longrightarrow> mergeable_free rs2 \<Longrightarrow> flatten rs1 = flatten rs2 \<Longrightarrow> rs1 = rs2"
proof (induction rs1 arbitrary: rs2)
  case Nil
  show ?case
  proof (cases rs2)
    case Nil
    then show ?thesis by simp
  next
    case (Cons r rs)
    with Nil.prems(2) have "flatten rs2 \<noteq> []" by (intro flatten_ne) simp_all
    with Nil.prems(5) show ?thesis by (simp add: flatten_def)
  qed
next
  case (Cons r1 rs1)
  obtain a b where r1: "r1 = (a, b)" by (cases r1)
  from Cons.prems(1) r1 have ab: "a \<le> b" and v1: "\<forall>(a, b)\<in>set rs1. a \<le> b" by simp_all
  have "flatten (r1 # rs1) \<noteq> []" using Cons.prems(1) by (intro flatten_ne) simp_all
  with Cons.prems(5) have "rs2 \<noteq> []" by (auto simp: flatten_def)
  then obtain c d rs2' where r2: "rs2 = (c, d) # rs2'" by (cases rs2) auto
  from Cons.prems(2) r2 have cd: "c \<le> d" and v2: "\<forall>(a, b)\<in>set rs2'. a \<le> b" by simp_all
  from Cons.prems(5) r1 r2 have eq: "[a..b] @ flatten rs1 = [c..d] @ flatten rs2'"
    by (simp add: flatten_Cons)
  from Cons.prems(3) r1 have mf1: "mergeable_free ((a, b) # rs1)" by simp
  from Cons.prems(4) r2 have mf2: "mergeable_free ((c, d) # rs2')" by simp
  have "\<not> b < d" by (rule no_longer_span [OF ab cd v1 mf1 eq])
  moreover have "\<not> d < b" by (rule no_longer_span [OF cd ab v2 mf2 eq [symmetric]])
  ultimately have bd: "b = d" by simp
  have ne: "[a..b] \<noteq> []" "[c..d] \<noteq> []" using ab cd by simp_all
  from arg_cong [OF eq, where f = hd]
  have "hd [a..b] = hd [c..d]" unfolding hd_append using ne by (simp only: if_False)
  then have ac: "a = c" using ab cd by (simp only: hd_upto_le)
  from eq have "[a..b] @ flatten rs1 = [a..b] @ flatten rs2'" unfolding ac bd .
  then have tl: "flatten rs1 = flatten rs2'" by (simp only: same_append_eq)
  have m1: "mergeable_free rs1" using mf1 by (cases rs1) auto
  have m2: "mergeable_free rs2'" using mf2 by (cases rs2') auto
  from Cons.IH [OF v1 v2 m1 m2 tl] ac bd r1 r2 show ?case by simp
qed

lemma compact_Nil: "compact tp [] = []"
  by (simp add: compact_def groupPages_def)

lemma compact_example: "9 \<le> n \<Longrightarrow> compact n [1, 2, 3, 5, 7, 8, 9] = [(1, 3), (5, 5), (7, 9)]"
  by (simp add: compact_def groupPages_def bounds_def)

text \<open>
  C3. For a strictly ascending selection of pages of the document, \<open>compact\<close> returns
  ranges \<open>(start, end)\<close> with \<open>start \<le> end\<close> whose spans, written out in order, are
  the selection; no range starts right after the one before it; no sequence of ranges
  with these spans is shorter, and none but this one is nowhere mergeable. The selection
  1, 2, 3, 5, 7, 8, 9 gives (1, 3), (5, 5), (7, 9), and the empty selection gives no range.
\<close>

theorem compact_minimal_cover:
  assumes "sorted_wrt (<) selection" and "\<forall>p\<in>set selection. 1 \<le> p \<and> p \<le> totalPages"
  shows "(\<forall>(start, end)\<in>set (compact totalPages selection). start \<le> end)
       \<and> flatten (compact totalPages selection) = selection
       \<and> mergeable_free (compact totalPages selection)
       \<and> (\<forall>rs. (\<forall>(a, b)\<in>set rs. a \<le> b) \<and> flatten rs = selection
               \<longrightarrow> length (compact totalPages selection) \<le> length rs)
       \<and> (\<forall>rs. (\<forall>(a, b)\<in>set rs. a \<le> b) \<and> flatten rs = selection \<and> mergeable_free rs
               \<longrightarrow> rs = compact totalPages selection)
       \<and> (9 \<le> n \<longrightarrow> compact n [1, 2, 3, 5, 7, 8, 9] = [(1, 3), (5, 5), (7, 9)])
       \<and> compact n [] = []"
proof (intro conjI allI impI)
  note s = sort_strict [OF assms(1)]
  show "\<forall>(start, end)\<in>set (compact totalPages selection). start \<le> end"
    using assms(2) by (rule compact_valid)
  show "flatten (compact totalPages selection) = selection"
    using flatten_compact [OF assms(2)] s by simp
  show "mergeable_free (compact totalPages selection)"
    using groupPages_props(2) [OF assms(2)] by (simp add: compact_def)
  show "length (compact totalPages selection) \<le> length rs"
    if "(\<forall>(a, b)\<in>set rs. a \<le> b) \<and> flatten rs = selection" for rs
  proof -
    from that have v: "\<forall>(a, b)\<in>set rs. a \<le> b" and c: "flatten rs = sort selection"
      using s by simp_all
    from compact_minimal [OF assms(2) v c] show ?thesis .
  qed
  show "rs = compact totalPages selection"
    if "(\<forall>(a, b)\<in>set rs. a \<le> b) \<and> flatten rs = selection \<and> mergeable_free rs" for rs
  proof -
    from that have v: "\<forall>(a, b)\<in>set rs. a \<le> b" and m: "mergeable_free rs"
      and c: "flatten rs = flatten (compact totalPages selection)"
      using flatten_compact [OF assms(2)] s by simp_all
    have m': "mergeable_free (compact totalPages selection)"
      using groupPages_props(2) [OF assms(2)] by (simp add: compact_def)
    from unique_cover [OF v compact_valid [OF assms(2)] m m' c] show ?thesis .
  qed
  show "compact n [1, 2, 3, 5, 7, 8, 9] = [(1, 3), (5, 5), (7, 9)]" if "9 \<le> n"
    using that by (rule compact_example)
  show "compact n [] = []" by (rule compact_Nil)
qed

theorem compact_minimal_cover_witness:
  "flatten (compact 10 [1, 2, 3, 5, 7, 8, 9]) = [1, 2, 3, 5, 7, 8, 9]
   \<and> mergeable_free (compact 10 [1, 2, 3, 5, 7, 8, 9])
   \<and> length (compact 10 [1, 2, 3, 5, 7, 8, 9]) \<le> length ([(1, 2), (3, 3), (5, 5), (7, 9)] :: (int \<times> int) list)"
proof -
  have a: "sorted_wrt (<) [1, 2, 3, 5, 7, 8, 9 :: int]" by simp
  have b: "\<forall>p\<in>set [1, 2, 3, 5, 7, 8, 9 :: int]. 1 \<le> p \<and> p \<le> 10" by simp
  have c: "(\<forall>(a, b)\<in>set [(1, 2), (3, 3), (5, 5), (7, 9 :: int)]. a \<le> b)
        \<and> flatten [(1, 2), (3, 3), (5, 5), (7, 9)] = [1, 2, 3, 5, 7, 8, 9]"
    by code_simp
  note t = compact_minimal_cover [OF a b, of 10]
  note f = t [THEN conjunct2, THEN conjunct1]
  note m = t [THEN conjunct2, THEN conjunct2, THEN conjunct1]
  note l = t [THEN conjunct2, THEN conjunct2, THEN conjunct2, THEN conjunct1, THEN spec, THEN mp, OF c]
  from f m l show ?thesis by (intro conjI)
qed

text \<open>
  C6. Compaction is idempotent: for a strictly ascending selection of pages of the
  document, writing the ranges of \<open>compact\<close> out and compacting again gives the same
  ranges.
\<close>

theorem compact_idempotent:
  assumes "sorted_wrt (<) s" and "\<forall>p\<in>set s. 1 \<le> p \<and> p \<le> totalPages"
  shows "compact totalPages (flatten (compact totalPages s)) = compact totalPages s"
  using flatten_compact [OF assms(2)] sort_strict [OF assms(1)] by simp

theorem compact_idempotent_witness:
  "compact 10 (flatten (compact 10 [1, 2, 3, 5, 7, 8, 9])) = [(1, 3), (5, 5), (7, 9)]"
proof -
  have a: "sorted_wrt (<) [1, 2, 3, 5, 7, 8, 9 :: int]" by simp
  have b: "\<forall>p\<in>set [1, 2, 3, 5, 7, 8, 9 :: int]. 1 \<le> p \<and> p \<le> 10" by simp
  have c: "compact 10 [1, 2, 3, 5, 7, 8, 9] = [(1, 3), (5, 5), (7, 9)]" by code_simp
  from compact_idempotent [OF a b] c show ?thesis by simp
qed

subsection \<open>Duplicated pages\<close>

lemma in_concat_nth:
  assumes "p \<in> set (concat G)"
  shows "\<exists>j<length G. p \<in> set (G ! j)"
proof -
  from assms obtain r where r: "r \<in> set G" "p \<in> set r" by auto
  from r(1) obtain j where "j < length G" "G ! j = r" by (meson in_set_conv_nth)
  with r(2) show ?thesis by blast
qed

lemma two_groups_not_distinct:
  "i < j \<Longrightarrow> j < length G \<Longrightarrow> p \<in> set (G ! i) \<Longrightarrow> p \<in> set (G ! j) \<Longrightarrow> \<not> distinct (concat G)"
proof (induction G arbitrary: i j)
  case Nil
  then show ?case by simp
next
  case (Cons r G)
  from Cons.prems(1) obtain j' where j: "j = Suc j'" by (cases j) auto
  show ?case
  proof (cases i)
    case 0
    with Cons.prems j have "p \<in> set r" "p \<in> set (G ! j')" "j' < length G" by simp_all
    then have "p \<in> set r" "p \<in> set (concat G)" by auto
    then show ?thesis by auto
  next
    case (Suc i')
    with Cons.prems j have "i' < j'" "j' < length G" "p \<in> set (G ! i')" "p \<in> set (G ! j')"
      by simp_all
    from Cons.IH [OF this] show ?thesis by simp
  qed
qed

lemma not_distinct_two_groups:
  "\<forall>r\<in>set G. distinct r \<Longrightarrow> \<not> distinct (concat G) \<Longrightarrow>
   \<exists>i j p. i < j \<and> j < length G \<and> p \<in> set (G ! i) \<and> p \<in> set (G ! j)"
proof (induction G)
  case Nil
  then show ?case by simp
next
  case (Cons r G)
  from Cons.prems have r: "distinct r" and G: "\<forall>r\<in>set G. distinct r" by simp_all
  show ?case
  proof (cases "distinct (concat G)")
    case True
    from Cons.prems(2) have "\<not> distinct (r @ concat G)" by simp
    with r True have "set r \<inter> set (concat G) \<noteq> {}" by simp
    then obtain p where p: "p \<in> set r" "p \<in> set (concat G)" by blast
    from in_concat_nth [OF p(2)] obtain j where j: "j < length G" "p \<in> set (G ! j)" by blast
    show ?thesis
    proof (intro exI)
      show "0 < Suc j \<and> Suc j < length (r # G) \<and> p \<in> set ((r # G) ! 0)
        \<and> p \<in> set ((r # G) ! Suc j)" using p(1) j by simp
    qed
  next
    case False
    from Cons.IH [OF G False] obtain i j p where
      ij: "i < j" "j < length G" "p \<in> set (G ! i)" "p \<in> set (G ! j)" by blast
    show ?thesis
    proof (intro exI)
      show "Suc i < Suc j \<and> Suc j < length (r # G) \<and> p \<in> set ((r # G) ! Suc i)
        \<and> p \<in> set ((r # G) ! Suc j)" using ij by simp
    qed
  qed
qed

lemma consecutive_distinct: "consecutive r \<Longrightarrow> distinct r"
  by (metis consecutive_def distinct_upto)

lemma one_range_iff_distinct:
  assumes inr: "\<forall>p\<in>set pages. 1 \<le> p \<and> p \<le> tp"
  shows "(\<forall>p\<in>set pages. \<exists>!i. i < length (groupPages tp pages) \<and> p \<in> set (groupPages tp pages ! i))
         \<longleftrightarrow> distinct pages"
proof
  let ?G = "groupPages tp pages"
  note c = groupPages_props(3) [OF inr]
  assume d: "distinct pages"
  then have dc: "distinct (concat ?G)" by (simp add: c)
  show "\<forall>p\<in>set pages. \<exists>!i. i < length ?G \<and> p \<in> set (?G ! i)"
  proof
    fix p assume "p \<in> set pages"
    then have "p \<in> set (concat ?G)" by (simp add: c)
    from in_concat_nth [OF this] obtain i where i: "i < length ?G" "p \<in> set (?G ! i)" by blast
    have "j = i" if "j < length ?G" "p \<in> set (?G ! j)" for j
    proof (rule ccontr)
      assume "j \<noteq> i"
      then consider "i < j" | "j < i" by linarith
      then show False
      proof cases
        case 1
        from two_groups_not_distinct [OF 1 that(1) i(2) that(2)] dc show False by simp
      next
        case 2
        from two_groups_not_distinct [OF 2 i(1) that(2) i(2)] dc show False by simp
      qed
    qed
    show "\<exists>!i. i < length ?G \<and> p \<in> set (?G ! i)"
    proof (rule ex1I)
      show "i < length ?G \<and> p \<in> set (?G ! i)" using i by simp
    next
      fix j assume "j < length ?G \<and> p \<in> set (?G ! j)"
      then show "j = i" using \<open>\<And>j. j < length ?G \<Longrightarrow> p \<in> set (?G ! j) \<Longrightarrow> j = i\<close> by simp
    qed
  qed
next
  let ?G = "groupPages tp pages"
  note c = groupPages_props(3) [OF inr]
  assume u: "\<forall>p\<in>set pages. \<exists>!i. i < length ?G \<and> p \<in> set (?G ! i)"
  show "distinct pages"
  proof (rule ccontr)
    assume "\<not> distinct pages"
    then have nd: "\<not> distinct (concat ?G)" by (simp add: c)
    have "distinct r" if "r \<in> set ?G" for r
      using groupPages_props(1) [OF inr] that by (simp add: consecutive_distinct)
    then have "\<forall>r\<in>set ?G. distinct r" by simp
    from not_distinct_two_groups [OF this nd] obtain i j p where
      ij: "i < j" "j < length ?G" "p \<in> set (?G ! i)" "p \<in> set (?G ! j)" by blast
    have "?G ! j \<in> set ?G" using ij(2) by simp
    with ij(4) have "p \<in> set (concat ?G)" by auto
    then have "p \<in> set pages" by (simp add: c)
    with u have "\<exists>!n. n < length ?G \<and> p \<in> set (?G ! n)" by simp
    then show False
    proof (rule ex1E)
      fix k assume k: "\<forall>n. n < length ?G \<and> p \<in> set (?G ! n) \<longrightarrow> n = k"
      from ij have il: "i < length ?G" by simp
      from k il ij(3) have "i = k" by blast
      moreover from k ij(2,4) have "j = k" by blast
      ultimately show False using ij(1) by simp
    qed
  qed
qed

text \<open>
  C9. \<open>createSplitDocuments\<close> sorts the page numbers and does not deduplicate them: for
  pages of the document the ranges, written one after the other, are the sorted input
  with its duplicates. So a duplicated page is in two ranges (the input 2, 1, 2 gives
  the ranges 1, 2 and 2), and every page of the input is in exactly one range if and
  only if the input has no duplicate.
\<close>

theorem grouping_keeps_duplicates:
  "groupPages 5 [2, 1, 2] = [[1, 2], [2]]
   \<and> ((\<forall>p\<in>set pageNumbers. 1 \<le> p \<and> p \<le> totalPages) \<longrightarrow>
        concat (groupPages totalPages pageNumbers) = sort pageNumbers
        \<and> ((\<forall>p\<in>set pageNumbers.
               \<exists>!i. i < length (groupPages totalPages pageNumbers)
                      \<and> p \<in> set (groupPages totalPages pageNumbers ! i))
             \<longleftrightarrow> distinct pageNumbers))"
proof (intro conjI impI)
  show "groupPages 5 [2, 1, 2] = [[1, 2], [2]]" by code_simp
next
  assume inr: "\<forall>p\<in>set pageNumbers. 1 \<le> p \<and> p \<le> totalPages"
  then show "concat (groupPages totalPages pageNumbers) = sort pageNumbers"
    by (rule groupPages_props(3))
  from inr show "(\<forall>p\<in>set pageNumbers.
               \<exists>!i. i < length (groupPages totalPages pageNumbers)
                      \<and> p \<in> set (groupPages totalPages pageNumbers ! i))
             \<longleftrightarrow> distinct pageNumbers"
    by (rule one_range_iff_distinct)
qed

theorem grouping_keeps_duplicates_witness:
  "concat (groupPages 5 [2, 1, 2]) = [1, 2, 2]
   \<and> \<not> (\<forall>p\<in>set [2, 1, 2 :: int].
            \<exists>!i. i < length (groupPages 5 [2, 1, 2]) \<and> p \<in> set (groupPages 5 [2, 1, 2] ! i))
   \<and> 2 \<in> set (groupPages 5 [2, 1, 2] ! 0) \<and> 2 \<in> set (groupPages 5 [2, 1, 2] ! 1)"
proof -
  have inr: "\<forall>p\<in>set [2, 1, 2 :: int]. 1 \<le> p \<and> p \<le> 5" by simp
  have nd: "\<not> distinct [2, 1, 2 :: int]" by simp
  have s: "sort [2, 1, 2 :: int] = [1, 2, 2]" by code_simp
  note t = grouping_keeps_duplicates [of "[2, 1, 2]" 5, THEN conjunct2, THEN mp, OF inr]
  from t s have "concat (groupPages 5 [2, 1, 2]) = [1, 2, 2]" by simp
  moreover from t nd have "\<not> (\<forall>p\<in>set [2, 1, 2 :: int].
            \<exists>!i. i < length (groupPages 5 [2, 1, 2]) \<and> p \<in> set (groupPages 5 [2, 1, 2] ! i))"
    by (simp only: simp_thms)
  moreover have "2 \<in> set (groupPages 5 [2, 1, 2] ! 0)" "2 \<in> set (groupPages 5 [2, 1, 2] ! 1)"
    by code_simp+
  ultimately show ?thesis by (intro conjI)
qed

section \<open>Properties of the output names\<close>

lemma replace_first:
  "\<forall>i<length pre. take (length pat) (drop i (pre @ pat @ post)) \<noteq> pat \<Longrightarrow>
   replace pat rep (pre @ pat @ post) = pre @ rep @ post"
proof (induction pre)
  case Nil
  show ?case
  proof (cases "pat @ post")
    case Nil
    then show ?thesis by simp
  next
    case (Cons a list)
    have "take (length pat) (pat @ post) = pat" "drop (length pat) (pat @ post) = post"
      by simp_all
    then have "take (length pat) (a # list) = pat" "drop (length pat) (a # list) = post"
      unfolding Cons by simp_all
    then have "replace pat rep (a # list) = rep @ post" by simp
    then show ?thesis unfolding Cons [symmetric] by simp
  qed
next
  case (Cons c pre)
  from Cons.prems have "take (length pat) (drop 0 ((c # pre) @ pat @ post)) \<noteq> pat" by blast
  then have here: "take (length pat) (c # pre @ pat @ post) \<noteq> pat" by simp
  have "take (length pat) (drop i (pre @ pat @ post)) \<noteq> pat" if "i < length pre" for i
    using Cons.prems [rule_format, of "Suc i"] that by simp
  then have "replace pat rep (pre @ pat @ post) = pre @ rep @ post" using Cons.IH by blast
  with here show ?case by simp
qed

lemma first_occurrence:
  assumes "s = u @ pat @ v"
  shows "\<exists>pre post. s = pre @ pat @ post \<and> (\<forall>i<length pre. take (length pat) (drop i s) \<noteq> pat)"
proof -
  define P where "P i \<longleftrightarrow> i + length pat \<le> length s \<and> take (length pat) (drop i s) = pat" for i
  define k where "k = (LEAST i. P i)"
  have "P (length u)" using assms by (simp add: P_def)
  then have Pk: "P k" unfolding k_def by (rule LeastI)
  have first: "\<not> P i" if "i < k" for i using that unfolding k_def by (rule not_less_Least)
  have "take (length pat) (drop k s) @ drop (length pat) (drop k s) = drop k s"
    by (rule append_take_drop_id)
  moreover have "take k s @ drop k s = s" by (rule append_take_drop_id)
  ultimately have "s = take k s @ take (length pat) (drop k s) @ drop (length pat) (drop k s)"
    by (simp only:)
  with Pk have dec: "s = take k s @ pat @ drop (length pat) (drop k s)" by (simp add: P_def)
  from Pk have len: "length (take k s) = k" by (simp add: P_def)
  have "take (length pat) (drop i s) \<noteq> pat" if "i < length (take k s)" for i
  proof
    assume eq: "take (length pat) (drop i s) = pat"
    from that len have ik: "i < k" by simp
    from eq have "length (take (length pat) (drop i s)) = length pat" by simp
    then have "length pat \<le> length s - i" by simp
    moreover from ik Pk have "i \<le> length s" by (simp add: P_def)
    ultimately have "P i" using eq by (simp add: P_def)
    with first [OF ik] show False by simp
  qed
  with dec show ?thesis by blast
qed

lemma length_upto_one: "start \<le> end \<Longrightarrow> length [start..end] = 1 \<longleftrightarrow> start = end"
  by auto

lemma fileName_upto:
  assumes "start \<le> end"
  shows "fileName namingPattern [start..end] =
     replace (js ''{n}'')
       (if start = end then toString start else toString start @ [HYPHEN] @ toString end)
       namingPattern"
proof -
  have a: "[start..end] ! 0 = start" using assms nth_upto [of start 0 "end"] by simp
  have "start + int (nat (end - start)) \<le> end" using assms by simp
  from nth_upto [OF this] assms have b: "[start..end] ! (length [start..end] - 1) = end"
    by (simp add: nat_diff_distrib')
  have len: "(length [start..end] = 1) = (start = end)" using assms by auto
  show ?thesis unfolding fileName_def a b len by simp
qed

lemma placeholder_length: "length (js ''{n}'') = 3"
  by (simp add: js_def)

text \<open>Only the first placeholder of a pattern is replaced.\<close>

lemma fileName_examples:
  "fileName (js ''part{n}'') [7, 8, 9] = js ''part7-9''"
  "fileName (js ''part{n}'') [5] = js ''part5''"
  "fileName (js ''p{n}_{n}'') [2, 3, 4] = js ''p2-4_{n}''"
  by code_simp+

text \<open>
  C7. A range from \<open>start\<close> to \<open>end\<close>, \<open>start \<le> end\<close>, is the list of its pages.
  For every pattern that contains the placeholder \<open>{n}\<close>, the name is the pattern with the
  placeholder (its first occurrence) replaced by the page number when \<open>start = end\<close>, and
  by \<open>start\<close>, a hyphen and \<open>end\<close> otherwise; a pattern that contains the placeholder
  has a first occurrence of it. The pattern \<open>part{n}\<close> gives \<open>part7-9\<close> for the range
  from 7 to 9 and \<open>part5\<close> for the page 5.
\<close>

theorem fileName_substitutes_placeholder:
  "(start \<le> end \<and> namingPattern = pre @ js ''{n}'' @ post
      \<and> (\<forall>i<length pre. take 3 (drop i namingPattern) \<noteq> js ''{n}'')
    \<longrightarrow> fileName namingPattern [start..end] =
          pre @ (if start = end then toString start
                 else toString start @ [HYPHEN] @ toString end) @ post)
   \<and> ((\<exists>u v. namingPattern = u @ js ''{n}'' @ v) \<longrightarrow>
        (\<exists>pre post. namingPattern = pre @ js ''{n}'' @ post
           \<and> (\<forall>i<length pre. take 3 (drop i namingPattern) \<noteq> js ''{n}'')))
   \<and> fileName (js ''part{n}'') [7..9] = js ''part7-9''
   \<and> fileName (js ''part{n}'') [5..5] = js ''part5''"
proof (intro conjI impI)
  assume h: "start \<le> end \<and> namingPattern = pre @ js ''{n}'' @ post
      \<and> (\<forall>i<length pre. take 3 (drop i namingPattern) \<noteq> js ''{n}'')"
  note le = h [THEN conjunct1] and np = h [THEN conjunct2, THEN conjunct1]
    and f = h [THEN conjunct2, THEN conjunct2]
  have "\<forall>i<length pre.
      take (length (js ''{n}'')) (drop i (pre @ js ''{n}'' @ post)) \<noteq> js ''{n}''"
    unfolding placeholder_length np [symmetric] by (rule f)
  from replace_first [OF this]
  have "replace (js ''{n}'')
      (if start = end then toString start else toString start @ [HYPHEN] @ toString end)
      namingPattern =
    pre @ (if start = end then toString start
           else toString start @ [HYPHEN] @ toString end) @ post"
    unfolding np [symmetric] .
  then show "fileName namingPattern [start..end] =
          pre @ (if start = end then toString start
                 else toString start @ [HYPHEN] @ toString end) @ post"
    unfolding fileName_upto [OF le] .
next
  assume "\<exists>u v. namingPattern = u @ js ''{n}'' @ v"
  then obtain u v where "namingPattern = u @ js ''{n}'' @ v" by blast
  from first_occurrence [OF this]
  show "\<exists>pre post. namingPattern = pre @ js ''{n}'' @ post
           \<and> (\<forall>i<length pre. take 3 (drop i namingPattern) \<noteq> js ''{n}'')"
    by (simp add: placeholder_length)
next
  show "fileName (js ''part{n}'') [7..9] = js ''part7-9''" by code_simp
  show "fileName (js ''part{n}'') [5..5] = js ''part5''" by code_simp
qed

theorem fileName_substitutes_placeholder_witness:
  "fileName (js ''a{b{n}c{n}'') [7..9] = js ''a{b'' @ (toString 7 @ [HYPHEN] @ toString 9) @ js ''c{n}''
   \<and> fileName (js ''a{b{n}c{n}'') [5..5] = js ''a{b'' @ toString 5 @ js ''c{n}''"
proof -
  have dec: "js ''a{b{n}c{n}'' = js ''a{b'' @ js ''{n}'' @ js ''c{n}''" by code_simp
  have len: "length (js ''a{b'') = 3" by code_simp
  have "take 3 (drop i (js ''a{b{n}c{n}'')) \<noteq> js ''{n}''" if "i < 3" for i
  proof -
    from that consider "i = 0" | "i = 1" | "i = 2" by linarith
    then show ?thesis by cases (simp_all add: js_def)
  qed
  with len have first: "\<forall>i<length (js ''a{b''). take 3 (drop i (js ''a{b{n}c{n}'')) \<noteq> js ''{n}''"
    by simp
  note t = fileName_substitutes_placeholder [where namingPattern = "js ''a{b{n}c{n}''"
      and pre = "js ''a{b''" and post = "js ''c{n}''", THEN conjunct1, THEN mp]
  have a: "(7::int) \<le> 9" and b: "(5::int) \<le> 5" by simp_all
  from t [of 7 9] a dec first
  have "fileName (js ''a{b{n}c{n}'') [7..9] =
      js ''a{b'' @ (toString 7 @ [HYPHEN] @ toString 9) @ js ''c{n}''" by simp
  moreover from t [of 5 5] b dec first
  have "fileName (js ''a{b{n}c{n}'') [5..5] = js ''a{b'' @ toString 5 @ js ''c{n}''" by simp
  ultimately show ?thesis by (intro conjI)
qed

section \<open>Properties of the split\<close>

lemma promiseAll_Inr: "promiseAll ps = Inr xs \<Longrightarrow> ps = map Inr xs"
proof (induction ps arbitrary: xs)
  case Nil
  then show ?case by simp
next
  case (Cons p ps)
  from Cons.prems obtain x where x: "p = Inr x" by (cases p) (simp_all add: bind_def)
  with Cons.prems obtain ys where ys: "promiseAll ps = Inr ys"
    by (cases "promiseAll ps") (simp_all add: bind_def)
  with Cons.prems x have "xs = x # ys" by (simp add: bind_def)
  with Cons.IH [OF ys] x show ?case by simp
qed

lemma promiseAll_resolves:
  "\<forall>p\<in>set ps. \<exists>x. p = Inr x \<Longrightarrow> \<exists>xs. promiseAll ps = Inr xs"
proof (induction ps)
  case Nil
  show ?case by simp
next
  case (Cons p ps)
  from Cons.prems obtain x where "p = Inr x" by auto
  moreover from Cons obtain xs where "promiseAll ps = Inr xs" by auto
  ultimately show ?case by (simp add: bind_def)
qed

lemma splitPdf_Inr:
  assumes "load lib content = Inr pdfDoc"
  shows "splitPdf lib content pageNumbers namingPattern = Inr splitFiles \<longleftrightarrow>
     promiseAll (map (splitRange lib pdfDoc namingPattern)
       (groupPages (getPageCount lib pdfDoc) pageNumbers)) = Inr splitFiles"
  using assms by (auto simp: splitPdf_def bind_def Let_def split: sum.splits js_error.splits)

lemma splitRange_name:
  "splitRange lib pdfDoc namingPattern r = Inr x \<Longrightarrow> out_name x = fileName namingPattern r @ js ''.pdf''"
  by (auto simp: splitRange_def bind_def Let_def split: sum.splits)

lemma pdf_branch:
  assumes "take 5 (file_type f) \<noteq> js ''text/''" "fileExtension (file_name f) = js ''pdf''"
  shows "createSplitDocuments lib f pageNumbers namingPattern =
     splitPdf lib (file_content f) pageNumbers namingPattern"
proof -
  have "js ''pdf'' \<noteq> []" "js ''pdf'' \<noteq> js ''txt''" by (simp_all add: js_def)
  with assms show ?thesis by (simp add: createSplitDocuments_def Let_def)
qed

lemma ascending_groups:
  "sorted_wrt (<) (concat G) \<Longrightarrow> \<forall>r\<in>set G. r \<noteq> [] \<Longrightarrow>
   sorted_wrt (\<lambda>r s. last r < hd s) G"
proof (induction G)
  case Nil
  show ?case by simp
next
  case (Cons r G)
  from Cons.prems have sr: "\<forall>x\<in>set r. \<forall>y\<in>set (concat G). x < y"
    and sG: "sorted_wrt (<) (concat G)" by (simp_all add: sorted_wrt_append)
  have "last r < hd s" if "s \<in> set G" for s
  proof -
    from Cons.prems(2) that have "last r \<in> set r" "hd s \<in> set s" by simp_all
    with that have "last r \<in> set r" "hd s \<in> set (concat G)" by auto
    with sr show ?thesis by blast
  qed
  with Cons.IH [OF sG] Cons.prems(2) show ?case by simp
qed

lemma compact_ascending:
  assumes "distinct pages" "\<forall>p\<in>set pages. 1 \<le> p \<and> p \<le> tp"
  shows "ascending_ranges (compact tp pages)"
proof -
  let ?G = "groupPages tp pages"
  have ne: "\<forall>r\<in>set ?G. r \<noteq> []"
    using groupPages_props(1) [OF assms(2)] by (auto simp: consecutive_def)
  have "sorted_wrt (<) (sort pages)" using assms(1) by (simp add: strict_sorted_iff)
  then have "sorted_wrt (<) (concat ?G)" by (simp add: groupPages_props(3) [OF assms(2)])
  from ascending_groups [OF this ne] have "sorted_wrt (\<lambda>r s. last r < hd s) ?G" .
  then have "sorted_wrt (\<lambda>r s. snd (bounds r) < fst (bounds s)) ?G"
    by (rule sorted_wrt_mono_rel [rotated]) (use ne in \<open>simp add: bounds_hd_last\<close>)
  then show ?thesis by (simp add: ascending_ranges_def compact_def sorted_wrt_map)
qed

text \<open>
  C5. For a PDF file that loads, and a selection without duplicates of pages of the
  document: when the split returns, it returns exactly one document for each range of the
  compacted selection, the document at each position being the one made from the range
  at that position and named after it; the split does return when the library does not
  throw on any range; and the ranges are in ascending order and cover the selection.
\<close>

theorem split_one_document_per_range:
  assumes "take 5 (file_type originalFile) \<noteq> js ''text/''"
    and "fileExtension (file_name originalFile) = js ''pdf''"
    and "load lib (file_content originalFile) = Inr pdfDoc"
    and "distinct pageNumbers"
    and "\<forall>p\<in>set pageNumbers. 1 \<le> p \<and> p \<le> getPageCount lib pdfDoc"
  shows "(createSplitDocuments lib originalFile pageNumbers namingPattern = Inr splitFiles \<longrightarrow>
            length splitFiles = length (compact (getPageCount lib pdfDoc) pageNumbers)
          \<and> (\<forall>i<length splitFiles.
                splitRange lib pdfDoc namingPattern
                  (groupPages (getPageCount lib pdfDoc) pageNumbers ! i) = Inr (splitFiles ! i)
              \<and> out_name (splitFiles ! i) =
                  fileName namingPattern (groupPages (getPageCount lib pdfDoc) pageNumbers ! i)
                    @ js ''.pdf''
              \<and> bounds (groupPages (getPageCount lib pdfDoc) pageNumbers ! i) =
                  compact (getPageCount lib pdfDoc) pageNumbers ! i))
       \<and> ((\<forall>r\<in>set (groupPages (getPageCount lib pdfDoc) pageNumbers).
              \<exists>x. splitRange lib pdfDoc namingPattern r = Inr x) \<longrightarrow>
            (\<exists>files. createSplitDocuments lib originalFile pageNumbers namingPattern = Inr files))
       \<and> ascending_ranges (compact (getPageCount lib pdfDoc) pageNumbers)
       \<and> flatten (compact (getPageCount lib pdfDoc) pageNumbers) = sort pageNumbers"
proof (intro conjI impI)
  let ?G = "groupPages (getPageCount lib pdfDoc) pageNumbers"
  note branch = pdf_branch [OF assms(1,2)] and run = splitPdf_Inr [OF assms(3)]
  {
    assume "createSplitDocuments lib originalFile pageNumbers namingPattern = Inr splitFiles"
    then have "promiseAll (map (splitRange lib pdfDoc namingPattern) ?G) = Inr splitFiles"
      by (simp add: branch run)
    then have eq: "map (splitRange lib pdfDoc namingPattern) ?G = map Inr splitFiles"
      by (rule promiseAll_Inr)
    from arg_cong [OF this, where f = length]
    have len: "length ?G = length splitFiles" by simp
    then show "length splitFiles = length (compact (getPageCount lib pdfDoc) pageNumbers)"
      by (simp add: compact_def)
    show "\<forall>i<length splitFiles.
                splitRange lib pdfDoc namingPattern (?G ! i) = Inr (splitFiles ! i)
              \<and> out_name (splitFiles ! i) = fileName namingPattern (?G ! i) @ js ''.pdf''
              \<and> bounds (?G ! i) = compact (getPageCount lib pdfDoc) pageNumbers ! i"
    proof (intro allI impI)
      fix i assume i: "i < length splitFiles"
      with len have iG: "i < length ?G" by simp
      from arg_cong [OF eq, where f = "\<lambda>xs. xs ! i"]
      have "map (splitRange lib pdfDoc namingPattern) ?G ! i = map Inr splitFiles ! i" .
      with i iG have r: "splitRange lib pdfDoc namingPattern (?G ! i) = Inr (splitFiles ! i)"
        by simp
      from splitRange_name [OF r] r iG
      show "splitRange lib pdfDoc namingPattern (?G ! i) = Inr (splitFiles ! i)
              \<and> out_name (splitFiles ! i) = fileName namingPattern (?G ! i) @ js ''.pdf''
              \<and> bounds (?G ! i) = compact (getPageCount lib pdfDoc) pageNumbers ! i"
        by (simp add: compact_def)
    qed
  }
  {
    assume "\<forall>r\<in>set ?G. \<exists>x. splitRange lib pdfDoc namingPattern r = Inr x"
    then have "\<forall>p\<in>set (map (splitRange lib pdfDoc namingPattern) ?G). \<exists>x. p = Inr x" by simp
    from promiseAll_resolves [OF this]
    show "\<exists>files. createSplitDocuments lib originalFile pageNumbers namingPattern = Inr files"
      by (simp add: branch run)
  }
  show "ascending_ranges (compact (getPageCount lib pdfDoc) pageNumbers)"
    using assms(4,5) by (rule compact_ascending)
  show "flatten (compact (getPageCount lib pdfDoc) pageNumbers) = sort pageNumbers"
    using assms(5) by (rule flatten_compact)
qed

theorem split_one_document_per_range_witness:
  "createSplitDocuments exampleLib
     \<lparr>file_name = js ''doc.pdf'', file_type = js ''application/pdf'',
      file_content = [10, 20, 30, 40, 50]\<rparr> [3, 1, 2, 5] (js ''doc_part{n}'') =
   Inr [\<lparr>out_name = js ''doc_part1-3.pdf'',
         out_content = \<lparr>blob_part = Bytes [10, 20, 30], blob_type = js ''application/pdf''\<rparr>\<rparr>,
        \<lparr>out_name = js ''doc_part5.pdf'',
         out_content = \<lparr>blob_part = Bytes [50], blob_type = js ''application/pdf''\<rparr>\<rparr>]
   \<and> length (compact 5 [3, 1, 2, 5]) = 2
   \<and> ascending_ranges (compact 5 [3, 1, 2, 5])"
proof -
  define f where "f = \<lparr>file_name = js ''doc.pdf'', file_type = js ''application/pdf'',
      file_content = [10, 20, 30, 40, 50]\<rparr>"
  define files where "files =
       [\<lparr>out_name = js ''doc_part1-3.pdf'',
         out_content = \<lparr>blob_part = Bytes [10, 20, 30], blob_type = js ''application/pdf''\<rparr>\<rparr>,
        \<lparr>out_name = js ''doc_part5.pdf'',
         out_content = \<lparr>blob_part = Bytes [50], blob_type = js ''application/pdf''\<rparr>\<rparr>]"
  have run: "createSplitDocuments exampleLib f [3, 1, 2, 5] (js ''doc_part{n}'') = Inr files"
    unfolding f_def files_def by code_simp
  have h1: "take 5 (file_type f) \<noteq> js ''text/''" unfolding f_def by code_simp
  have h2: "fileExtension (file_name f) = js ''pdf''" unfolding f_def by code_simp
  have h3: "load exampleLib (file_content f) = Inr [10, 20, 30, 40, 50]"
    by (simp add: f_def exampleLib_def)
  have h4: "distinct [3, 1, 2, 5 :: int]" by simp
  have n: "getPageCount exampleLib [10, 20, 30, 40, 50] = 5" by (simp add: exampleLib_def)
  have h5: "\<forall>p\<in>set [3, 1, 2, 5 :: int]. 1 \<le> p \<and> p \<le> getPageCount exampleLib [10, 20, 30, 40, 50]"
    by (simp add: n)
  note t = split_one_document_per_range [OF h1 h2 h3 h4 h5, of "js ''doc_part{n}''" files]
  from t [THEN conjunct1, THEN mp, OF run, THEN conjunct1]
  have "length (compact 5 [3, 1, 2, 5]) = 2" by (simp add: n files_def)
  moreover from t [THEN conjunct2, THEN conjunct2, THEN conjunct1]
  have "ascending_ranges (compact 5 [3, 1, 2, 5])" by (simp add: n)
  ultimately show ?thesis using run unfolding f_def files_def by (intro conjI)
qed


section \<open>Properties of the compression\<close>

lemma chain_fallback:
  fixes a0 a1 a2 a3 :: "js_error + bytes"
  assumes h0: "\<And>b. a0 = Inr b \<Longrightarrow> n \<le> length b"
    and h1: "\<And>b. a1 = Inr b \<Longrightarrow> n \<le> length b"
    and h2: "\<And>b. a2 = Inr b \<Longrightarrow> n \<le> length b"
    and h3: "\<And>b. a3 = Inr b \<Longrightarrow> n \<le> length b"
    and r: "bind a0 (\<lambda>b1.
       bind (if length b1 \<ge> n then a1 else Inr b1) (\<lambda>b2.
       bind (if length b2 \<ge> n then a2 else Inr b2) (\<lambda>b3.
       bind (if length b3 \<ge> n then a3 else Inr b3) (\<lambda>b4.
         if length b4 \<ge> n then Inr orig else Inr (other b4))))) = Inr res"
  shows "res = orig"
proof -
  from r obtain b1 where b1: "a0 = Inr b1" by (cases a0) (simp_all add: bind_def)
  note n1 = h0 [OF b1]
  from r b1 n1 obtain b2 where b2: "a1 = Inr b2" by (cases a1) (simp_all add: bind_def)
  note n2 = h1 [OF b2]
  from r b1 n1 b2 n2 obtain b3 where b3: "a2 = Inr b3" by (cases a2) (simp_all add: bind_def)
  note n3 = h2 [OF b3]
  from r b1 n1 b2 n2 b3 n3 obtain b4 where b4: "a3 = Inr b4" by (cases a3) (simp_all add: bind_def)
  note n4 = h3 [OF b4]
  from r b1 n1 b2 n2 b3 n3 b4 n4 show ?thesis by (simp add: bind_def)
qed

lemma compressPdf_fallback:
  assumes big: "\<And>pdfDoc a b. loadLenient lib ab = Inr pdfDoc \<Longrightarrow>
      a \<in> set (attempts lib pdfDoc level) \<Longrightarrow> a = Inr b \<Longrightarrow> length ab \<le> length b"
    and res: "compressPdf lib ab ft level = Inr res"
  shows "res = \<lparr>blob_part = Bytes ab, blob_type = ft\<rparr>"
proof -
  from res obtain pdfDoc where l: "loadLenient lib ab = Inr pdfDoc"
    by (cases "loadLenient lib ab") (simp_all add: compressPdf_def bind_def)
  let ?as = "attempts lib pdfDoc level"
  have len: "length ?as = 4" by (simp add: attempts_def)
  have h: "length ab \<le> length b" if "k < 4" "?as ! k = Inr b" for k b
  proof -
    from that(1) len have "?as ! k \<in> set ?as" by simp
    from big [OF l this that(2)] show ?thesis .
  qed
  from res l have "bind (?as ! 0) (\<lambda>b1.
       bind (if length b1 \<ge> length ab then ?as ! 1 else Inr b1) (\<lambda>b2.
       bind (if length b2 \<ge> length ab then ?as ! 2 else Inr b2) (\<lambda>b3.
       bind (if length b3 \<ge> length ab then ?as ! 3 else Inr b3) (\<lambda>b4.
         if length b4 \<ge> length ab then Inr \<lparr>blob_part = Bytes ab, blob_type = ft\<rparr>
         else Inr \<lparr>blob_part = Bytes b4, blob_type = js ''application/pdf''\<rparr>)))) = Inr res"
    by (simp add: compressPdf_def bind_def)
  from chain_fallback [OF h [of 0] h [of 1] h [of 2] h [of 3] this] show ?thesis by simp
qed

text \<open>
  C8. For a file whose extension is \<open>pdf\<close>: if every attempt at compressing the loaded
  document either throws or gives at least as many bytes as the original file has, then
  \<open>createProcessedDocument\<close> returns a blob with exactly the bytes of the original file,
  and its type.
\<close>

theorem compression_falls_back_to_original:
  assumes pdf: "fileExtension (file_name originalFile) = js ''pdf''"
    and big: "\<And>level pdfDoc a b. compressionLevel = Some level \<Longrightarrow>
      loadLenient lib (file_content originalFile) = Inr pdfDoc \<Longrightarrow>
      a \<in> set (attempts lib pdfDoc level) \<Longrightarrow> a = Inr b \<Longrightarrow>
      length (file_content originalFile) \<le> length b"
  shows "createProcessedDocument lib originalFile compressionLevel =
     \<lparr>blob_part = Bytes (file_content originalFile), blob_type = file_type originalFile\<rparr>"
proof (cases compressionLevel)
  case None
  then show ?thesis by (simp add: createProcessedDocument_def Let_def)
next
  case (Some level)
  show ?thesis
  proof (cases "compressPdf lib (file_content originalFile) (file_type originalFile) level")
    case (Inl e)
    with Some pdf show ?thesis by (simp add: createProcessedDocument_def Let_def)
  next
    case (Inr res)
    from compressPdf_fallback [OF big [OF Some] Inr] Inr Some pdf
    show ?thesis by (simp add: createProcessedDocument_def Let_def)
  qed
qed

theorem compression_falls_back_to_original_witness:
  "createProcessedDocument exampleLib
     \<lparr>file_name = js ''doc.PDF'', file_type = js ''application/pdf'',
      file_content = [10, 20, 30, 40, 50]\<rparr> (Some (js ''high'')) =
   \<lparr>blob_part = Bytes [10, 20, 30, 40, 50], blob_type = js ''application/pdf''\<rparr>"
proof -
  define f where "f = \<lparr>file_name = js ''doc.PDF'', file_type = js ''application/pdf'',
      file_content = [10, 20, 30, 40, 50]\<rparr>"
  have pdf: "fileExtension (file_name f) = js ''pdf''" unfolding f_def by code_simp
  have big: "length (file_content f) \<le> length b"
    if "Some (js ''high'') = Some level" "loadLenient exampleLib (file_content f) = Inr pdfDoc"
      "a \<in> set (attempts exampleLib pdfDoc level)" "a = Inr b" for level pdfDoc a b
  proof -
    from that(2) have d: "pdfDoc = [10, 20, 30, 40, 50]" by (simp add: f_def exampleLib_def)
    have u: "[0..4 :: int] = [0, 1, 2, 3, 4]" by code_simp
    have "recompress exampleLib [10, 20, 30, 40, 50] options = Inr [10, 20, 30, 40, 50]"
      for options by (simp add: recompress_def exampleLib_def bind_def u)
    with that(3,4) d have "b = [10, 20, 30, 40, 50]"
      by (auto simp: attempts_def exampleLib_def)
    then show ?thesis by (simp add: f_def)
  qed
  from compression_falls_back_to_original [where lib = exampleLib and originalFile = f
      and compressionLevel = "Some (js ''high'')", OF pdf big]
  show ?thesis by (simp add: f_def)
qed

end
